theory Spec2Isabelle
  imports Complex_Main "HOL-Library.Word" "HOL-Library.Log_Nat"
begin

section \<open>Strings and numbers\<close>

text \<open>
  A JavaScript string is a sequence of UTF-16 code units; \<open>text[i]\<close> and \<open>text.length\<close>
  index and count code units.
\<close>

type_synonym code_unit = "16 word"
type_synonym jsstring = "code_unit list"

text \<open>
  A JavaScript number is an IEEE 754 double. A finite double is given by its value, a
  rational; \<open>fl q\<close> is the double nearest to \<open>q\<close>, with ties to the even significand
  (53 bits, least exponent -1074), and each arithmetic operation returns the rounded
  exact result. Values of magnitude \<open>2 ^ 1024\<close> and more, infinities and NaN are left
  out: coordinates and their differences are finite and far smaller.
\<close>

type_synonym num = rat

text \<open>The greatest \<open>k\<close> with \<open>2 ^ k \<le> q\<close>, for positive \<open>q\<close>.\<close>

definition ilog2 :: "rat \<Rightarrow> int" where
  "ilog2 q = (let (a, b) = quotient_of q; k = bitlen a - bitlen b
              in if 2 powi k \<le> q then k else k - 1)"

definition roundHalfEven :: "rat \<Rightarrow> int" where
  "roundHalfEven s = (let f = \<lfloor>s\<rfloor>; r = s - of_int f
                      in if r < 1 / 2 then f else if 1 / 2 < r then f + 1
                         else if even f then f else f + 1)"

definition fl :: "rat \<Rightarrow> num" where
  "fl q = (if q = 0 then 0
           else let e = max (ilog2 \<bar>q\<bar> - 52) (- 1074);
                    m = roundHalfEven (\<bar>q\<bar> * 2 powi (- e))
                in sgn q * of_int m * 2 powi e)"

text \<open>The operators \<open>-\<close>, \<open>*\<close> and \<open>/\<close> on numbers.\<close>

definition dsub :: "num \<Rightarrow> num \<Rightarrow> num" where
  "dsub a b = fl (a - b)"

definition dmul :: "num \<Rightarrow> num \<Rightarrow> num" where
  "dmul a b = fl (a * b)"

definition ddiv :: "num \<Rightarrow> num \<Rightarrow> num" where
  "ddiv a b = fl (a / b)"

section \<open>The original subtree and its markup\<close>

text \<open>
  The subtree of the target before the split: text nodes, comments, and elements with
  their tag, attributes and children.
\<close>

datatype node =
    Text jsstring
  | Comment jsstring
  | Element string "(string \<times> string) list" "node list"

text \<open>
  An HTML string, as the sequence of its tokens: start tags with their attributes, end
  tags, runs of character data (character references resolved) and comments. Two strings
  are the same exactly when their token sequences are, a run of character data being
  never empty and never followed by another.
\<close>

datatype token =
    StartTag string "(string \<times> string) list"
  | EndTag string
  | Characters jsstring
  | CommentToken jsstring

type_synonym markup = "token list"

fun textNodes :: "node \<Rightarrow> jsstring list" where
  "textNodes (Text s) = [s]"
| "textNodes (Comment s) = []"
| "textNodes (Element tag attrs kids) = concat (map textNodes kids)"

text \<open>\<open>document.createTreeWalker(element, NodeFilter.SHOW_TEXT)\<close>: the text nodes below
  the element, in document order.\<close>

definition treeWalker :: "node list \<Rightarrow> jsstring list" where
  "treeWalker kids = concat (map textNodes kids)"

text \<open>\<open>element.textContent\<close>: the data of every text node below the element, joined.\<close>

definition textContent :: "node list \<Rightarrow> jsstring" where
  "textContent kids = concat (treeWalker kids)"

section \<open>Measuring the original text\<close>

text \<open>The interfaces \<open>MeasuredChar\<close> and \<open>MeasuredWord\<close>; \<open>wchars\<close> is the field \<open>chars\<close> of
  a measured word.\<close>

record MeasuredChar =
  char :: jsstring
  left :: num

record MeasuredWord =
  wchars :: "MeasuredChar list"
  startLeft :: num
  noSpaceBefore :: bool

text \<open>\<open>BREAK_CHARS\<close>: the set of the em dash U+2014 and the en dash U+2013, each a
  string of one code unit.\<close>

definition BREAK_CHARS :: "jsstring set" where
  "BREAK_CHARS = {[0x2014], [0x2013]}"

text \<open>\<open>char === " " || char === "\n" || char === "\t"\<close>\<close>

definition isWhitespace :: "jsstring \<Rightarrow> bool" where
  "isWhitespace ch \<longleftrightarrow> ch = [0x20] \<or> ch = [0x0A] \<or> ch = [0x09]"

text \<open>The variables \<open>words\<close> (here \<open>mwords\<close>), \<open>currentWord\<close>, \<open>wordStartLeft\<close> and
  \<open>noSpaceBeforeNext\<close> that the closure \<open>pushWord\<close> and the loops of
  \<open>measureOriginalText\<close> share.\<close>

record scan =
  mwords :: "MeasuredWord list"
  currentWord :: "MeasuredChar list"
  wordStartLeft :: "num option"
  noSpaceBeforeNext :: bool

definition pushWord :: "scan \<Rightarrow> scan" where
  "pushWord s =
     (if currentWord s \<noteq> [] then
        s\<lparr>mwords := mwords s @
              [\<lparr>wchars = currentWord s,
                startLeft = (case wordStartLeft s of None \<Rightarrow> 0 | Some l \<Rightarrow> l),
                noSpaceBefore = noSpaceBeforeNext s\<rparr>],
          currentWord := [],
          wordStartLeft := None,
          noSpaceBeforeNext := False\<rparr>
      else s)"

text \<open>
  The body of the inner \<open>for\<close> loop at offset \<open>i\<close> of the text node number \<open>n\<close>, where
  \<open>c\<close> is the code unit \<open>text[i]\<close>. \<open>rangeLeft n i\<close> is
  \<open>range.getBoundingClientRect().left\<close> for the range from \<open>i\<close> to \<open>i + 1\<close> in that
  node: an answer of the rendering surface.
\<close>

definition measureChar :: "(nat \<Rightarrow> nat \<Rightarrow> num) \<Rightarrow> nat \<Rightarrow> nat \<times> code_unit \<Rightarrow> scan \<Rightarrow> scan" where
  "measureChar rangeLeft n = (\<lambda>(i, c) s.
     let ch = [c] in
     if isWhitespace ch then pushWord s
     else
       let l = rangeLeft n i;
           s1 = (if wordStartLeft s = None then s\<lparr>wordStartLeft := Some l\<rparr> else s);
           s2 = s1\<lparr>currentWord := currentWord s1 @ [\<lparr>char = ch, left = l\<rparr>]\<rparr>
       in if ch \<in> BREAK_CHARS then (pushWord s2)\<lparr>noSpaceBeforeNext := True\<rparr> else s2)"

definition measureNode :: "(nat \<Rightarrow> nat \<Rightarrow> num) \<Rightarrow> nat \<times> jsstring \<Rightarrow> scan \<Rightarrow> scan" where
  "measureNode rangeLeft = (\<lambda>(n, text). fold (measureChar rangeLeft n) (enumerate 0 text))"

definition scan0 :: scan where
  "scan0 = \<lparr>mwords = [], currentWord = [], wordStartLeft = None, noSpaceBeforeNext = False\<rparr>"

definition measureOriginalText :: "(nat \<Rightarrow> nat \<Rightarrow> num) \<Rightarrow> node list \<Rightarrow> MeasuredWord list" where
  "measureOriginalText rangeLeft kids =
     mwords (pushWord (fold (measureNode rangeLeft) (enumerate 0 (treeWalker kids)) scan0))"

section \<open>The page: the target element and the spans the split creates\<close>

type_synonym ref = nat

datatype display = InlineBlock | Block

text \<open>A child of the target or of a span: a subtree that came from markup, a text node
  made by \<open>document.createTextNode\<close>, or a span made by \<open>createSpan\<close>, by reference.\<close>

datatype child = Parsed node | TextNode jsstring | SpanNode ref

record span =
  className :: string
  dataset_index :: "nat option"
  dataset_expectedGap :: "num option"
  style_display :: display
  style_marginLeft :: "num option"
  childNodes :: "child list"

text \<open>
  The target besides its children: the \<open>aria-label\<close> attribute, the inline
  \<open>font-variant-ligatures\<close> style and the computed font size.
\<close>

record props =
  aria_label :: "jsstring option"
  fontVariantLigatures :: "string option"
  fontSize :: num

text \<open>The target as \<open>splitText\<close> receives it: its subtree is any DOM subtree.\<close>

record element = props +
  subtree :: "node list"

text \<open>The page while the split runs and afterwards: the target's children, the span
  objects by reference, and the warnings written to the console.\<close>

record dom = props +
  body :: "child list"
  heap :: "ref \<rightharpoonup> span"
  nextRef :: ref
  console :: "string list"

record DOMRect =
  rect_left :: num
  rect_top :: num

text \<open>\<open>getBoundingClientRect()\<close> of a span in a given state of the page: an answer of
  the rendering surface.\<close>

type_synonym layout = "dom \<Rightarrow> ref \<Rightarrow> DOMRect"

record SplitTextOptions =
  charClass :: string
  wordClass :: string
  lineClass :: string

definition defaultOptions :: SplitTextOptions where
  "defaultOptions = \<lparr>charClass = ''split-char'', wordClass = ''split-word'', lineClass = ''split-line''\<rparr>"

text \<open>\<open>createSpan(className, index, display)\<close>: a new span object.\<close>

definition createSpan :: "string \<Rightarrow> nat option \<Rightarrow> display \<Rightarrow> dom \<Rightarrow> ref \<times> dom" where
  "createSpan cls idx disp d =
     (nextRef d,
      d\<lparr>heap := (heap d)(nextRef d \<mapsto>
            \<lparr>className = cls, dataset_index = idx, dataset_expectedGap = None,
              style_display = disp, style_marginLeft = None, childNodes = []\<rparr>),
        nextRef := Suc (nextRef d)\<rparr>)"

text \<open>An assignment to a property of the span object \<open>r\<close>. Every reference that the
  split uses comes from \<open>createSpan\<close>, so the object exists.\<close>

definition update :: "ref \<Rightarrow> (span \<Rightarrow> span) \<Rightarrow> dom \<Rightarrow> dom" where
  "update r f d = (case heap d r of None \<Rightarrow> d | Some s \<Rightarrow> d\<lparr>heap := (heap d)(r \<mapsto> f s)\<rparr>)"

text \<open>\<open>span.appendChild(c)\<close> and \<open>element.appendChild(c)\<close>. Every node the split appends
  is new or was detached by \<open>element.textContent = ""\<close>, so none has to leave an old parent.\<close>

definition appendChild :: "ref \<Rightarrow> child \<Rightarrow> dom \<Rightarrow> dom" where
  "appendChild r c = update r (\<lambda>s. s\<lparr>childNodes := childNodes s @ [c]\<rparr>)"

definition elementAppendChild :: "child \<Rightarrow> dom \<Rightarrow> dom" where
  "elementAppendChild c d = d\<lparr>body := body d @ [c]\<rparr>"

text \<open>\<open>span.textContent = s\<close>: the children become one text node, or none for \<open>""\<close>.\<close>

definition setTextContent :: "ref \<Rightarrow> jsstring \<Rightarrow> dom \<Rightarrow> dom" where
  "setTextContent r s = update r (\<lambda>sp. sp\<lparr>childNodes := (if s = [] then [] else [TextNode s])\<rparr>)"

text \<open>\<open>Array.from(span.children)\<close>: the element children of a span.\<close>

fun spanRefs :: "child list \<Rightarrow> ref list" where
  "spanRefs [] = []"
| "spanRefs (SpanNode r # cs) = r # spanRefs cs"
| "spanRefs (c # cs) = spanRefs cs"

definition children :: "dom \<Rightarrow> ref \<Rightarrow> ref list" where
  "children d r = (case heap d r of None \<Rightarrow> [] | Some s \<Rightarrow> spanRefs (childNodes s))"

section \<open>splitText\<close>

text \<open>The arrays \<open>allChars\<close> and \<open>allWords\<close> and the set \<open>noSpaceBeforeSet\<close>, with the page.\<close>

record build =
  page :: dom
  allChars :: "ref list"
  allWords :: "ref list"
  noSpaceBeforeSet :: "ref set"

text \<open>STEP 2, the callback of \<open>measuredWord.chars.forEach\<close>. The annotation
  \<open>dataset.expectedGap\<close> holds \<open>gap.toString()\<close> and is read back with \<open>parseFloat\<close>,
  which returns \<open>gap\<close>: the field holds the number. The index \<open>charIndex - 1\<close> is in
  range, as \<open>charIndex\<close> is positive there.\<close>

definition charStep :: "SplitTextOptions \<Rightarrow> ref \<Rightarrow> MeasuredWord \<Rightarrow> nat \<times> MeasuredChar \<Rightarrow> build \<Rightarrow> build" where
  "charStep opts wordSpan measuredWord = (\<lambda>(charIndex, measuredChar) b.
     let (charSpan, d1) = createSpan (charClass opts) (Some charIndex) InlineBlock (page b);
         d2 = setTextContent charSpan (char measuredChar) d1;
         d3 = (if charIndex > 0 then
                 let prevCharLeft = left (wchars measuredWord ! (charIndex - 1));
                     gap = dsub (left measuredChar) prevCharLeft
                 in update charSpan (\<lambda>s. s\<lparr>dataset_expectedGap := Some gap\<rparr>) d2
               else d2);
         d4 = appendChild wordSpan (SpanNode charSpan) d3
     in b\<lparr>page := d4, allChars := allChars b @ [charSpan]\<rparr>)"

text \<open>STEP 2, the callback of \<open>measuredWords.forEach\<close>.\<close>

definition wordStep :: "SplitTextOptions \<Rightarrow> nat \<times> MeasuredWord \<Rightarrow> build \<Rightarrow> build" where
  "wordStep opts = (\<lambda>(wordIndex, measuredWord) b.
     let (wordSpan, d1) = createSpan (wordClass opts) (Some wordIndex) InlineBlock (page b);
         b1 = b\<lparr>page := d1,
                noSpaceBeforeSet := (if noSpaceBefore measuredWord
                                     then insert wordSpan (noSpaceBeforeSet b)
                                     else noSpaceBeforeSet b)\<rparr>;
         b2 = fold (charStep opts wordSpan measuredWord) (enumerate 0 (wchars measuredWord)) b1
     in b2\<lparr>allWords := allWords b2 @ [wordSpan]\<rparr>)"

text \<open>STEP 3 and the inner loop of STEP 6: a node is appended, and a space after it
  unless it is the last of \<open>ws\<close> or the next one is a dash continuation.\<close>

definition SPACE :: jsstring where
  "SPACE = [0x20]"

definition addWord :: "(child \<Rightarrow> dom \<Rightarrow> dom) \<Rightarrow> ref set \<Rightarrow> ref list \<Rightarrow> nat \<times> ref \<Rightarrow> dom \<Rightarrow> dom" where
  "addWord appendTo nsb ws = (\<lambda>(idx, wordSpan) d.
     let d1 = appendTo (SpanNode wordSpan) d
     in if idx < length ws - 1 \<and> ws ! (idx + 1) \<notin> nsb
        then appendTo (TextNode SPACE) d1 else d1)"

text \<open>STEP 4, the body of the \<open>for\<close> loop at index \<open>i\<close>. \<open>Math.abs\<close> and the
  comparison are exact, and \<open>Math.round\<close> returns the nearest integer, the greater one
  at a tie.\<close>

definition compensateChar :: "ref list \<Rightarrow> num list \<Rightarrow> nat \<Rightarrow> dom \<Rightarrow> dom" where
  "compensateChar chars positions i d =
     (let charSpan = chars ! i in
      case heap d charSpan of
        None \<Rightarrow> d
      | Some s \<Rightarrow>
          (case dataset_expectedGap s of
             None \<Rightarrow> d
           | Some originalGap \<Rightarrow>
               let currentGap = dsub (positions ! i) (positions ! (i - 1));
                   delta = dsub originalGap currentGap;
                   d1 = (if \<bar>delta\<bar> < 20 then
                           let roundedDelta = ddiv (of_int (round (dmul delta 100))) 100
                           in update charSpan (\<lambda>s. s\<lparr>style_marginLeft := Some roundedDelta\<rparr>) d
                         else d)
               in update charSpan (\<lambda>s. s\<lparr>dataset_expectedGap := None\<rparr>) d1))"

text \<open>STEP 4, the callback of \<open>allWords.forEach\<close>.\<close>

definition compensateWord :: "layout \<Rightarrow> ref \<Rightarrow> dom \<Rightarrow> dom" where
  "compensateWord L wordSpan d =
     (let chars = children d wordSpan in
      if length chars < 2 then d
      else
        let positions = map (\<lambda>c. rect_left (L d c)) chars
        in fold (compensateChar chars positions) [1..<length chars] d)"

text \<open>STEP 5: \<open>lineGroups\<close>, \<open>currentLine\<close> and \<open>currentY\<close>, and the callback of
  \<open>allWords.forEach\<close>. The page does not change during this step.\<close>

record lineScan =
  lineGroups :: "ref list list"
  currentLine :: "ref list"
  currentY :: "int option"

definition lineStep :: "layout \<Rightarrow> dom \<Rightarrow> ref \<Rightarrow> lineScan \<Rightarrow> lineScan" where
  "lineStep L d wordSpan ls =
     (let wordY = round (rect_top (L d wordSpan)) in
      case currentY ls of
        None \<Rightarrow> ls\<lparr>currentY := Some wordY, currentLine := currentLine ls @ [wordSpan]\<rparr>
      | Some y \<Rightarrow>
          if \<bar>wordY - y\<bar> < 5 then ls\<lparr>currentLine := currentLine ls @ [wordSpan]\<rparr>
          else ls\<lparr>lineGroups := lineGroups ls @ [currentLine ls],
                  currentLine := [wordSpan],
                  currentY := Some wordY\<rparr>)"

definition detectLines :: "layout \<Rightarrow> dom \<Rightarrow> ref list \<Rightarrow> ref list list" where
  "detectLines L d ws =
     (let ls = fold (lineStep L d) ws \<lparr>lineGroups = [], currentLine = [], currentY = None\<rparr>
      in if currentLine ls \<noteq> [] then lineGroups ls @ [currentLine ls] else lineGroups ls)"

text \<open>STEP 6, the callback of \<open>lineGroups.forEach\<close>, with the array \<open>allLines\<close>.\<close>

definition lineWrap :: "SplitTextOptions \<Rightarrow> ref set \<Rightarrow> nat \<times> ref list \<Rightarrow> ref list \<times> dom \<Rightarrow> ref list \<times> dom" where
  "lineWrap opts nsb = (\<lambda>(lineIndex, ws) (allLines, d).
     let (lineSpan, d1) = createSpan (lineClass opts) (Some lineIndex) Block d;
         d2 = fold (addWord (appendChild lineSpan) nsb ws) (enumerate 0 ws) d1
     in (allLines @ [lineSpan], elementAppendChild (SpanNode lineSpan) d2))"

text \<open>The returned object. \<open>originalHTML\<close> is the string that the closure \<open>revert\<close>
  holds.\<close>

record SplitResult =
  chars :: "ref list"
  words :: "ref list"
  lines :: "ref list"
  originalHTML :: markup

text \<open>The page when \<open>splitText\<close> is called: no span exists yet.\<close>

definition load :: "element \<Rightarrow> dom" where
  "load el =
     \<lparr>aria_label = aria_label el,
      fontVariantLigatures = fontVariantLigatures el,
      fontSize = fontSize el,
      body = map Parsed (subtree el), heap = Map.empty, nextRef = 0, console = []\<rparr>"

text \<open>\<open>element.setAttribute("aria-label", text)\<close>\<close>

definition setAriaLabel :: "jsstring \<Rightarrow> dom \<Rightarrow> dom" where
  "setAriaLabel text d = d\<lparr>aria_label := Some text\<rparr>"

text \<open>\<open>element.textContent = ""\<close>: the target loses all its children.\<close>

definition clearElement :: "dom \<Rightarrow> dom" where
  "clearElement d = d\<lparr>body := []\<rparr>"

definition step2 :: "SplitTextOptions \<Rightarrow> MeasuredWord list \<Rightarrow> dom \<Rightarrow> build" where
  "step2 opts measuredWords d =
     fold (wordStep opts) (enumerate 0 measuredWords)
       \<lparr>page = d, allChars = [], allWords = [], noSpaceBeforeSet = {}\<rparr>"

definition step3 :: "build \<Rightarrow> dom" where
  "step3 b = fold (addWord elementAppendChild (noSpaceBeforeSet b) (allWords b))
               (enumerate 0 (allWords b)) (page b)"

definition step4 :: "layout \<Rightarrow> ref list \<Rightarrow> dom \<Rightarrow> dom" where
  "step4 L ws d = fold (compensateWord L) ws d"

definition step6 :: "SplitTextOptions \<Rightarrow> ref set \<Rightarrow> ref list list \<Rightarrow> dom \<Rightarrow> ref list \<times> dom" where
  "step6 opts nsb groups d =
     fold (lineWrap opts nsb) (enumerate 0 groups) ([], clearElement d)"

text \<open>
  \<open>splitText\<close>. The getter \<open>element.innerHTML\<close> returns the serialisation of the
  subtree: \<open>serialize\<close> is the serialiser of the browser.
\<close>

definition splitText ::
  "(node list \<Rightarrow> markup) \<Rightarrow> layout \<Rightarrow> (nat \<Rightarrow> nat \<Rightarrow> num) \<Rightarrow> SplitTextOptions \<Rightarrow> element
     \<Rightarrow> SplitResult \<times> dom" where
  "splitText serialize L rangeLeft opts el =
     (let originalHTML = serialize (subtree el);
          text = textContent (subtree el);
          d0 = setAriaLabel text (load el);
          measuredWords = measureOriginalText rangeLeft (subtree el);
          d1 = clearElement d0;
          b = step2 opts measuredWords d1;
          d3 = step3 b;
          d4 = step4 L (allWords b) d3;
          groups = detectLines L d4 (allWords b);
          (allLines, d6) = step6 opts (noSpaceBeforeSet b) groups d4
      in (\<lparr>chars = allChars b, words = allWords b, lines = allLines,
            originalHTML = originalHTML\<rparr>, d6))"

text \<open>\<open>revert\<close>: \<open>element.innerHTML = originalHTML\<close>, then
  \<open>element.removeAttribute("aria-label")\<close>. The setter replaces the children of the
  target by the nodes that the HTML parser of the browser, \<open>parse\<close>, builds from the
  string.\<close>

definition revert :: "(markup \<Rightarrow> node list) \<Rightarrow> SplitResult \<Rightarrow> dom \<Rightarrow> dom" where
  "revert parse r d = d\<lparr>body := map Parsed (parse (originalHTML r)), aria_label := None\<rparr>"

section \<open>Auxiliary notions and sample inputs\<close>

text \<open>All units measured so far by a scan, closed words first.\<close>

definition units :: "scan \<Rightarrow> MeasuredChar list" where
  "units s = concat (map wchars (mwords s)) @ currentWord s"

text \<open>The attributes and styles of the target, and the console.\<close>

definition frame :: "dom \<Rightarrow> jsstring option \<times> string option \<times> num \<times> string list" where
  "frame d = (aria_label d, fontVariantLigatures d, fontSize d, console d)"

text \<open>The children of the target that came from markup.\<close>

fun parsedNodes :: "child list \<Rightarrow> node list" where
  "parsedNodes [] = []"
| "parsedNodes (Parsed n # cs) = n # parsedNodes cs"
| "parsedNodes (c # cs) = parsedNodes cs"

text \<open>The page of \<open>splitText\<close> after STEP 3, when the compensation starts.\<close>

definition afterStep3 :: "(nat \<Rightarrow> nat \<Rightarrow> num) \<Rightarrow> SplitTextOptions \<Rightarrow> element \<Rightarrow> dom" where
  "afterStep3 rangeLeft opts el =
     step3 (step2 opts (measureOriginalText rangeLeft (subtree el))
              (clearElement (setAriaLabel (textContent (subtree el)) (load el))))"

subsection \<open>A browser\<close>

text \<open>
  The serialiser of HTML fragments, on tokens: a text node gives its data, a comment a
  comment token, an element its start tag, the serialisation of its children and its end
  tag, a void element its start tag only. Adjacent character data is one run.
\<close>

definition voidElements :: "string set" where
  "voidElements = {''area'', ''base'', ''basefont'', ''bgsound'', ''br'', ''col'', ''embed'',
     ''frame'', ''hr'', ''img'', ''input'', ''keygen'', ''link'', ''meta'', ''param'',
     ''source'', ''track'', ''wbr''}"

fun nodeTokens :: "node \<Rightarrow> token list" where
  "nodeTokens (Text s) = [Characters s]"
| "nodeTokens (Comment s) = [CommentToken s]"
| "nodeTokens (Element tag attrs kids) =
     (if tag \<in> voidElements then [StartTag tag attrs]
      else StartTag tag attrs # concat (map nodeTokens kids) @ [EndTag tag])"

fun joinCharacters :: "token list \<Rightarrow> markup" where
  "joinCharacters [] = []"
| "joinCharacters (Characters s # ts) =
     (case joinCharacters ts of
        Characters t # us \<Rightarrow> Characters (s @ t) # us
      | us \<Rightarrow> if s = [] then us else Characters s # us)"
| "joinCharacters (t # ts) = t # joinCharacters ts"

definition htmlSerialize :: "node list \<Rightarrow> markup" where
  "htmlSerialize kids = joinCharacters (concat (map nodeTokens kids))"

text \<open>
  The tree construction of the HTML parser for a fragment, on tokens, with the stack of
  open elements (innermost first, each with the children it has so far) and the children
  of the fragment so far. Character data joins a text node that it follows. After the
  start tag of \<open>pre\<close>, \<open>listing\<close> or \<open>textarea\<close> a line feed that comes next is dropped
  (\<open>skip\<close>). An end tag closes the current element if it has that name and is ignored
  otherwise; the end of the string closes what is open. The repairs of the parser for
  markup that is not nested this way (implied end tags and the like) are not part of
  this function.
\<close>

type_synonym openElement = "string \<times> (string \<times> string) list \<times> node list"

fun insertNode :: "node \<Rightarrow> openElement list \<Rightarrow> node list \<Rightarrow> openElement list \<times> node list" where
  "insertNode n [] frag = ([], frag @ [n])"
| "insertNode n ((tag, attrs, kids) # stack) frag = ((tag, attrs, kids @ [n]) # stack, frag)"

fun appendText :: "jsstring \<Rightarrow> node list \<Rightarrow> node list" where
  "appendText s [] = [Text s]"
| "appendText s [Text t] = [Text (t @ s)]"
| "appendText s [n] = [n, Text s]"
| "appendText s (n # ns) = n # appendText s ns"

fun insertText :: "jsstring \<Rightarrow> openElement list \<Rightarrow> node list \<Rightarrow> openElement list \<times> node list" where
  "insertText s [] frag = ([], appendText s frag)"
| "insertText s ((tag, attrs, kids) # stack) frag = ((tag, attrs, appendText s kids) # stack, frag)"

fun treeBuilder :: "token list \<Rightarrow> bool \<Rightarrow> openElement list \<Rightarrow> node list \<Rightarrow> node list" where
  "treeBuilder [] skip [] frag = frag"
| "treeBuilder [] skip [(tag, attrs, kids)] frag = frag @ [Element tag attrs kids]"
| "treeBuilder [] skip ((tag, attrs, kids) # (tag', attrs', kids') # stack) frag =
     treeBuilder [] False ((tag', attrs', kids' @ [Element tag attrs kids]) # stack) frag"
| "treeBuilder (StartTag tag attrs # ts) skip stack frag =
     (if tag \<in> voidElements then
        (let (stack', frag') = insertNode (Element tag attrs []) stack frag
         in treeBuilder ts False stack' frag')
      else treeBuilder ts (tag \<in> {''pre'', ''listing'', ''textarea''}) ((tag, attrs, []) # stack) frag)"
| "treeBuilder (EndTag tag # ts) skip [] frag = treeBuilder ts False [] frag"
| "treeBuilder (EndTag tag # ts) skip ((tag', attrs, kids) # stack) frag =
     (if tag' = tag then
        (let (stack', frag') = insertNode (Element tag' attrs kids) stack frag
         in treeBuilder ts False stack' frag')
      else treeBuilder ts False ((tag', attrs, kids) # stack) frag)"
| "treeBuilder (Characters s # ts) skip stack frag =
     (let s' = (if skip \<and> s \<noteq> [] \<and> hd s = 0x0A then tl s else s)
      in if s' = [] then treeBuilder ts False stack frag
         else (let (stack', frag') = insertText s' stack frag
               in treeBuilder ts False stack' frag'))"
| "treeBuilder (CommentToken s # ts) skip stack frag =
     (let (stack', frag') = insertNode (Comment s) stack frag
      in treeBuilder ts False stack' frag')"

definition htmlParse :: "markup \<Rightarrow> node list" where
  "htmlParse ts = treeBuilder ts False [] []"



subsection \<open>Rendering surfaces and targets\<close>

text \<open>A rendering surface that places the unit at offset \<open>i\<close> of a text node at
  \<open>10 * i\<close>, as the mock of the test setup does.\<close>

definition mockRange :: "nat \<Rightarrow> nat \<Rightarrow> num" where
  "mockRange n i = of_nat i * 10"

text \<open>The text \<open>a b\<close>.\<close>

definition text_a_b :: jsstring where
  "text_a_b = [0x61, 0x20, 0x62]"

text \<open>The text \<open>Hello\<close>, family emoji (man, ZWJ, woman, ZWJ, boy), \<open>World\<close>, party popper,
  sparkles, in UTF-16: the family is U+1F468 U+200D U+1F469 U+200D U+1F466, eight code
  units.\<close>

definition text_emoji :: jsstring where
  "text_emoji =
     [0x48, 0x65, 0x6C, 0x6C, 0x6F, 0x20,
      0xD83D, 0xDC68, 0x200D, 0xD83D, 0xDC69, 0x200D, 0xD83D, 0xDC66, 0x20,
      0x57, 0x6F, 0x72, 0x6C, 0x64, 0x20,
      0xD83C, 0xDF89, 0x2728]"

text \<open>The rendering surface of the test setup: a span lies at ten times its
  \<open>data-index\<close>, on the line at the top.\<close>

definition mockLayout :: layout where
  "mockLayout d r =
     \<lparr>rect_left = (case heap d r of
                     None \<Rightarrow> 0
                   | Some s \<Rightarrow> (case dataset_index s of None \<Rightarrow> 0 | Some i \<Rightarrow> of_nat i * 10)),
      rect_top = 0\<rparr>"

text \<open>A rendering surface that puts the spans 0 and 1 at the top and every later span
  20 units lower.\<close>

definition layout_0_20 :: layout where
  "layout_0_20 d r = \<lparr>rect_left = of_nat r * 10, rect_top = (if r < 2 then 0 else 20)\<rparr>"


text \<open>A target with the text \<open>a b\<close> and a font size of 96.\<close>

definition element_a_b_96 :: element where
  "element_a_b_96 =
     \<lparr>aria_label = None, fontVariantLigatures = None, fontSize = 96, subtree = [Text text_a_b]\<rparr>"

text \<open>A target with the text \<open>fi\<close>.\<close>

definition element_fi :: element where
  "element_fi =
     \<lparr>aria_label = None, fontVariantLigatures = None, fontSize = 16,
      subtree = [Text [0x66, 0x69]]\<rparr>"

text \<open>A target without children.\<close>

definition element_empty :: element where
  "element_empty =
     \<lparr>aria_label = None, fontVariantLigatures = None, fontSize = 16, subtree = []\<rparr>"

text \<open>A unit that is a break character.\<close>

definition isBreak :: "MeasuredChar \<Rightarrow> bool" where
  "isBreak u \<longleftrightarrow> char u \<in> BREAK_CHARS"

text \<open>A list of measured words in which every word has a unit, a break character is
  only ever the last unit of a word, and a word is flagged exactly when the word before
  it ends with a break character (\<open>p\<close> for the first word).\<close>

fun flagged :: "bool \<Rightarrow> MeasuredWord list \<Rightarrow> bool" where
  "flagged p [] = True"
| "flagged p (w # ws) =
     (wchars w \<noteq> [] \<and> noSpaceBefore w = p \<and> (\<forall>u \<in> set (butlast (wchars w)). \<not> isBreak u)
      \<and> flagged (isBreak (last (wchars w))) ws)"

text \<open>Whether the word after the list is due the flag.\<close>

fun nextFlag :: "bool \<Rightarrow> MeasuredWord list \<Rightarrow> bool" where
  "nextFlag p [] = p"
| "nextFlag p (w # ws) = nextFlag (isBreak (last (wchars w))) ws"

text \<open>What holds of the variables of \<open>measureOriginalText\<close> between two units.\<close>

definition scanInv :: "scan \<Rightarrow> bool" where
  "scanInv s \<longleftrightarrow>
     flagged False (mwords s) \<and> noSpaceBeforeNext s = nextFlag False (mwords s)
     \<and> (\<forall>u \<in> set (currentWord s). \<not> isBreak u)"

text \<open>The references that STEP 2 gives to the word spans when the next free reference
  is \<open>n\<close>: each word takes one, and each of its characters one after it.\<close>

fun wordRefs :: "ref \<Rightarrow> MeasuredWord list \<Rightarrow> ref list" where
  "wordRefs n [] = []"
| "wordRefs n (w # ws) = n # wordRefs (Suc n + length (wchars w)) ws"

text \<open>Those of them that STEP 2 puts into \<open>noSpaceBeforeSet\<close>.\<close>

fun flaggedRefs :: "ref \<Rightarrow> MeasuredWord list \<Rightarrow> ref set" where
  "flaggedRefs n [] = {}"
| "flaggedRefs n (w # ws) =
     (if noSpaceBefore w then {n} else {}) \<union> flaggedRefs (Suc n + length (wchars w)) ws"

text \<open>The nodes that the loop of STEP 3, or the inner loop of STEP 6, appends for the
  words \<open>ws\<close>.\<close>

definition separated :: "ref set \<Rightarrow> ref list \<Rightarrow> child list" where
  "separated nsb ws =
     concat (map (\<lambda>(idx, w). SpanNode w #
                    (if idx < length ws - 1 \<and> ws ! (idx + 1) \<notin> nsb then [TextNode SPACE] else []))
               (enumerate 0 ws))"

text \<open>What holds of the variables of STEP 5 between two words.\<close>

definition lineInv :: "lineScan \<Rightarrow> bool" where
  "lineInv ls \<longleftrightarrow> [] \<notin> set (lineGroups ls) \<and> (currentY ls = None \<or> currentLine ls \<noteq> [])"

text \<open>The line span number \<open>k\<close> as STEP 6 leaves it, for the words \<open>ws\<close>.\<close>

definition lineSpan :: "SplitTextOptions \<Rightarrow> ref set \<Rightarrow> nat \<Rightarrow> ref list \<Rightarrow> span" where
  "lineSpan opts nsb k ws =
     \<lparr>className = lineClass opts, dataset_index = Some k, dataset_expectedGap = None,
      style_display = Block, style_marginLeft = None, childNodes = separated nsb ws\<rparr>"

text \<open>The text \<open>a\<close>, em dash, \<open>b c\<close>, and a target with it.\<close>

definition text_dash :: jsstring where
  "text_dash = [0x61, 0x2014, 0x62, 0x20, 0x63]"

definition element_dash :: element where
  "element_dash =
     \<lparr>aria_label = None, fontVariantLigatures = None, fontSize = 16, subtree = [Text text_dash]\<rparr>"

text \<open>A character span after the body of the loop of STEP 4 has run for it, when the
  measured gap to the span before it is \<open>currentGap\<close>.\<close>

definition compensated :: "num \<Rightarrow> span \<Rightarrow> span" where
  "compensated currentGap s =
     (case dataset_expectedGap s of
        None \<Rightarrow> s
      | Some originalGap \<Rightarrow>
          let delta = dsub originalGap currentGap
          in s\<lparr>style_marginLeft :=
                 (if \<bar>delta\<bar> < 20 then Some (ddiv (of_int (round (dmul delta 100))) 100)
                  else style_marginLeft s),
               dataset_expectedGap := None\<rparr>)"

text \<open>The character span that STEP 2 makes for the unit \<open>mc\<close> at index \<open>i\<close> of the word
  \<open>mw\<close>, and the word span number \<open>k\<close> with \<open>len\<close> characters and the reference \<open>w\<close>.\<close>

definition charSpanAt :: "SplitTextOptions \<Rightarrow> MeasuredWord \<Rightarrow> nat \<Rightarrow> MeasuredChar \<Rightarrow> span" where
  "charSpanAt opts mw i mc =
     \<lparr>className = charClass opts, dataset_index = Some i,
      dataset_expectedGap =
        (if 0 < i then Some (dsub (left mc) (left (wchars mw ! (i - 1)))) else None),
      style_display = InlineBlock, style_marginLeft = None,
      childNodes = (if char mc = [] then [] else [TextNode (char mc)])\<rparr>"

definition wordSpanOf :: "SplitTextOptions \<Rightarrow> nat \<Rightarrow> ref \<Rightarrow> nat \<Rightarrow> span" where
  "wordSpanOf opts k w len =
     \<lparr>className = wordClass opts, dataset_index = Some k, dataset_expectedGap = None,
      style_display = InlineBlock, style_marginLeft = None,
      childNodes = map SpanNode [Suc w..<Suc w + len]\<rparr>"

text \<open>The next free reference after STEP 2, when it was \<open>n\<close> before.\<close>

fun endRef :: "ref \<Rightarrow> MeasuredWord list \<Rightarrow> ref" where
  "endRef n [] = n"
| "endRef n (w # ws) = endRef (Suc n + length (wchars w)) ws"

text \<open>
  Two measurements of the text \<open>fi\<close> and two rendering surfaces. In the first pair the
  units lie at 0 and at the double 0.015 and all spans at 0, so \<open>delta\<close> is the double
  0.015. In the second the units lie at 0 and at the double 20.02, and the spans at 0
  but for span 2 at the double 0.02, so \<open>delta\<close> is 20.
\<close>

definition rangeTie :: "nat \<Rightarrow> nat \<Rightarrow> num" where
  "rangeTie n i = (if i = 0 then 0 else fl (15 / 1000))"

definition layoutFlat :: layout where
  "layoutFlat d r = \<lparr>rect_left = 0, rect_top = 0\<rparr>"

definition rangeBound :: "nat \<Rightarrow> nat \<Rightarrow> num" where
  "rangeBound n i = (if i = 0 then 0 else fl (2002 / 100))"

definition layoutBound :: layout where
  "layoutBound d r = \<lparr>rect_left = (if r = 2 then fl (2 / 100) else 0), rect_top = 0\<rparr>"

section \<open>Content conservation\<close>

lemma units_pushWord: "units (pushWord s) = units s"
  by (simp add: units_def pushWord_def)

lemma currentWord_pushWord: "currentWord (pushWord s) = []"
  by (simp add: pushWord_def)

lemma units_measureChar:
  "units (measureChar R n (i, c) s) =
     units s @ (if isWhitespace [c] then [] else [\<lparr>char = [c], left = R n i\<rparr>])"
  by (simp add: measureChar_def Let_def units_pushWord) (simp add: units_def pushWord_def)

lemma units_fold_measureChar:
  "map char (units (fold (measureChar R n) (enumerate k t) s)) =
     map char (units s) @ map (\<lambda>c. [c]) (filter (\<lambda>c. \<not> isWhitespace [c]) t)"
proof (induction t arbitrary: k s)
  case Nil
  then show ?case by simp
next
  case (Cons c t)
  show ?case
    by (simp add: Cons.IH units_measureChar)
qed

lemma units_measureNode:
  "map char (units (measureNode R (n, t) s)) =
     map char (units s) @ map (\<lambda>c. [c]) (filter (\<lambda>c. \<not> isWhitespace [c]) t)"
  by (simp add: measureNode_def units_fold_measureChar)

lemma units_fold_measureNode:
  "map char (units (fold (measureNode R) (enumerate k texts) s)) =
     map char (units s) @ map (\<lambda>c. [c]) (filter (\<lambda>c. \<not> isWhitespace [c]) (concat texts))"
proof (induction texts arbitrary: k s)
  case Nil
  then show ?case by simp
next
  case (Cons t texts)
  show ?case
    by (simp add: Cons.IH units_measureNode)
qed

lemma measured_units:
  "map char (concat (map wchars (measureOriginalText R kids))) =
     map (\<lambda>c. [c]) (filter (\<lambda>c. \<not> isWhitespace [c]) (textContent kids))"
proof -
  let ?s = "fold (measureNode R) (enumerate 0 (treeWalker kids)) scan0"
  have "concat (map wchars (mwords (pushWord ?s))) = units (pushWord ?s)"
    by (simp add: units_def currentWord_pushWord)
  also have "\<dots> = units ?s"
    by (rule units_pushWord)
  finally have "map char (concat (map wchars (measureOriginalText R kids))) = map char (units ?s)"
    by (simp add: measureOriginalText_def)
  also have "\<dots> = map (\<lambda>c. [c]) (filter (\<lambda>c. \<not> isWhitespace [c]) (textContent kids))"
    by (simp add: units_fold_measureNode textContent_def) (simp add: units_def scan0_def)
  finally show ?thesis .
qed

lemma concat_singletons: "concat (map (\<lambda>c. [c]) xs) = xs"
  by (induction xs) simp_all

text \<open>
  C2 as stated fails: for the text \<open>a b\<close> the measured units are \<open>a\<close> and \<open>b\<close>, and
  joining them gives \<open>ab\<close>, without the space.
\<close>

theorem measured_text_counterexample:
  "concat (map char (concat (map wchars (measureOriginalText mockRange [Text text_a_b]))))
     \<noteq> textContent [Text text_a_b]"
  by (simp add: concat_singletons measured_units textContent_def treeWalker_def
      text_a_b_def isWhitespace_def)

text \<open>
  C2, amended: joining the characters of all measured units, in document order, gives
  the original text of the element with every space, tab and newline left out, for every
  subtree and every answer of the rendering surface.
\<close>

theorem measured_text_without_whitespace:
  "concat (map char (concat (map wchars (measureOriginalText R kids)))) =
     filter (\<lambda>c. \<not> isWhitespace [c]) (textContent kids)"
  by (simp add: measured_units concat_singletons)

section \<open>Units are code units\<close>

text \<open>
  C3: the source walks the text by index, so the family emoji of the sample text comes
  out as eight units, one for each UTF-16 code unit, and not as one.
\<close>

theorem emoji_split_into_code_units:
  "map (\<lambda>w. map char (wchars w)) (measureOriginalText mockRange [Text text_emoji]) =
     [[[0x48], [0x65], [0x6C], [0x6C], [0x6F]],
      [[0xD83D], [0xDC68], [0x200D], [0xD83D], [0xDC69], [0x200D], [0xD83D], [0xDC66]],
      [[0x57], [0x6F], [0x72], [0x6C], [0x64]],
      [[0xD83C], [0xDF89], [0x2728]]]"
  by code_simp

section \<open>What the steps leave alone\<close>

lemma fold_keeps:
  assumes "\<And>x s. g (f x s) = g s"
  shows "g (fold f xs s) = g s"
  using assms by (induction xs arbitrary: s) simp_all

lemma frame_update [simp]: "frame (update r f d) = frame d"
  by (simp add: update_def frame_def split: option.splits)

lemma frame_createSpan [simp]: "frame (snd (createSpan cls idx disp d)) = frame d"
  by (simp add: createSpan_def frame_def)

lemma frame_appendChild [simp]: "frame (appendChild r c d) = frame d"
  by (simp add: appendChild_def)

lemma frame_setTextContent [simp]: "frame (setTextContent r s d) = frame d"
  by (simp add: setTextContent_def)

lemma frame_elementAppendChild [simp]: "frame (elementAppendChild c d) = frame d"
  by (simp add: elementAppendChild_def frame_def)

lemma frame_clearElement [simp]: "frame (clearElement d) = frame d"
  by (simp add: clearElement_def frame_def)

lemma frame_charStep: "frame (page (charStep opts w mw x b)) = frame (page b)"
  by (cases x) (simp add: charStep_def Let_def split: prod.splits, metis frame_createSpan snd_conv)

lemma frame_wordStep: "frame (page (wordStep opts x b)) = frame (page b)"
proof (cases x)
  case (Pair k mw)
  obtain w d1 where c: "createSpan (wordClass opts) (Some k) InlineBlock (page b) = (w, d1)"
    by (cases "createSpan (wordClass opts) (Some k) InlineBlock (page b)")
  have "frame d1 = frame (page b)"
    using frame_createSpan [of "wordClass opts" "Some k" InlineBlock "page b"] c by simp
  then show ?thesis
    using Pair c
    by (simp add: wordStep_def Let_def fold_keeps [where g = "\<lambda>b. frame (page b)", OF frame_charStep])
qed

lemma frame_step2: "frame (page (step2 opts mws d)) = frame d"
  by (simp add: step2_def fold_keeps [where g = "\<lambda>b. frame (page b)", OF frame_wordStep])

lemma frame_addWord:
  assumes "\<And>c d. frame (appendTo c d) = frame d"
  shows "frame (addWord appendTo nsb ws x d) = frame d"
  by (cases x) (simp add: addWord_def Let_def assms)

lemma frame_step3: "frame (step3 b) = frame (page b)"
  by (simp add: step3_def fold_keeps [where g = frame, OF frame_addWord])

lemma frame_compensateChar: "frame (compensateChar cs ps i d) = frame d"
  by (simp add: compensateChar_def Let_def split: option.splits)

lemma frame_compensateWord: "frame (compensateWord L w d) = frame d"
  by (simp add: compensateWord_def Let_def fold_keeps [where g = frame, OF frame_compensateChar])

lemma frame_step4: "frame (step4 L ws d) = frame d"
  by (simp add: step4_def fold_keeps [where g = frame, OF frame_compensateWord])

lemma frame_lineWrap: "frame (snd (lineWrap opts nsb x a)) = frame (snd a)"
proof (cases x, cases a)
  fix k ws ls d
  assume x: "x = (k, ws)" and a: "a = (ls, d)"
  obtain l d1 where c: "createSpan (lineClass opts) (Some k) Block d = (l, d1)"
    by (cases "createSpan (lineClass opts) (Some k) Block d")
  have "frame d1 = frame d"
    using frame_createSpan [of "lineClass opts" "Some k" Block d] c by simp
  then show ?thesis
    using x a c
    by (simp add: lineWrap_def Let_def
        fold_keeps [where g = frame, OF frame_addWord [where appendTo = "appendChild l"]])
qed

lemma frame_step6: "frame (snd (step6 opts nsb groups d)) = frame d"
  by (simp add: step6_def fold_keeps [where g = "\<lambda>a. frame (snd a)", OF frame_lineWrap])

lemma frame_splitText:
  "frame (snd (splitText S L R opts el)) =
     (Some (textContent (subtree el)), fontVariantLigatures el, fontSize el, [])"
proof -
  have "frame (snd (splitText S L R opts el)) = frame (setAriaLabel (textContent (subtree el)) (load el))"
    by (simp add: splitText_def Let_def split: prod.splits)
      (metis frame_step6 frame_step4 frame_step3 frame_step2 frame_clearElement snd_conv)
  then show ?thesis
    by (simp add: frame_def setAriaLabel_def load_def)
qed


section \<open>Revert and the accessibility label\<close>

lemma parsedNodes_Parsed [simp]: "parsedNodes (map Parsed ns) = ns"
  by (induction ns) simp_all






text \<open>
  C9: for every configuration, after \<open>splitText\<close> the attribute \<open>aria-label\<close> of the
  target is the text content that the target had before its subtree was changed, and
  after \<open>revert\<close> the attribute is absent.
\<close>

theorem aria_label_set_and_removed:
  "let (r, d) = splitText S L R opts el in
     aria_label d = Some (textContent (subtree el)) \<and> aria_label (revert P r d) = None"
  using frame_splitText [of S L R opts el]
  by (simp add: frame_def revert_def case_prod_beta)

section \<open>Behaviour that the documentation describes and the source lacks\<close>

text \<open>
  C6: the source never writes \<open>font-variant-ligatures\<close>. For the text \<open>fi\<close> the two
  characters are split into spans, and the style of the target is unset after the split
  and after \<open>revert\<close>, as it was before.
\<close>

theorem ligatures_left_enabled:
  "let (r, d) = splitText htmlSerialize mockLayout mockRange defaultOptions element_fi in
     chars r = [1, 2] \<and> fontVariantLigatures d = None
       \<and> fontVariantLigatures (revert htmlParse r d) = None"
  by code_simp

text \<open>
  C8: for a target without text the three collections are empty, but nothing is written
  to the console, and the target is changed: it gets an empty \<open>aria-label\<close>.
\<close>

theorem empty_content_no_warning:
  "let (r, d) = splitText htmlSerialize mockLayout mockRange defaultOptions element_empty in
     chars r = [] \<and> words r = [] \<and> lines r = [] \<and> console d = [] \<and> aria_label d = Some []"
  by code_simp

text \<open>
  C5: the tolerance of the source is the constant 5. With a font size of 96, two words
  whose tops are 0 and 20 are put on two lines.
\<close>

theorem fixed_tolerance_at_font_size_96:
  "let (r, d) = splitText htmlSerialize layout_0_20 mockRange defaultOptions element_a_b_96 in
     fontSize d = 96 \<and> words r = [0, 2] \<and> map (children d) (lines r) = [[0], [2]]"
  by code_simp

section \<open>Break characters\<close>

lemma flagged_snoc:
  "flagged p (xs @ [w]) \<longleftrightarrow>
     flagged p xs \<and> wchars w \<noteq> [] \<and> noSpaceBefore w = nextFlag p xs
     \<and> (\<forall>u \<in> set (butlast (wchars w)). \<not> isBreak u)"
  by (induction xs arbitrary: p) auto

lemma nextFlag_snoc: "nextFlag p (xs @ [w]) = isBreak (last (wchars w))"
  by (induction xs arbitrary: p) auto

lemma scanInv_pushWord: "scanInv s \<Longrightarrow> scanInv (pushWord s)"
  by (auto simp: scanInv_def pushWord_def flagged_snoc nextFlag_snoc dest: in_set_butlastD)

lemma scanInv_measureChar:
  assumes "scanInv s"
  shows "scanInv (measureChar R n x s)"
proof (cases x)
  case (Pair i c)
  show ?thesis
  proof (cases "isWhitespace [c]")
    case True
    with Pair assms show ?thesis
      by (simp add: measureChar_def scanInv_pushWord)
  next
    case ws: False
    show ?thesis
    proof (cases "[c] \<in> BREAK_CHARS")
      case True
      with Pair ws assms show ?thesis
        by (auto simp: measureChar_def Let_def scanInv_def pushWord_def flagged_snoc
            nextFlag_snoc isBreak_def butlast_append)
    next
      case False
      with Pair ws assms show ?thesis
        by (auto simp: measureChar_def Let_def scanInv_def isBreak_def)
    qed
  qed
qed

lemma fold_preserves:
  assumes "P s" and "\<And>x s. P s \<Longrightarrow> P (f x s)"
  shows "P (fold f xs s)"
  using assms by (induction xs arbitrary: s) simp_all

lemma scanInv_measureNode: "scanInv s \<Longrightarrow> scanInv (measureNode R x s)"
  by (cases x) (simp add: measureNode_def fold_preserves [where P = scanInv] scanInv_measureChar)

lemma flagged_measured: "flagged False (measureOriginalText R kids)"
proof -
  have "scanInv scan0"
    by (simp add: scanInv_def scan0_def)
  then have "scanInv (fold (measureNode R) (enumerate 0 (treeWalker kids)) scan0)"
    by (rule fold_preserves) (rule scanInv_measureNode)
  then have "scanInv (pushWord (fold (measureNode R) (enumerate 0 (treeWalker kids)) scan0))"
    by (rule scanInv_pushWord)
  then show ?thesis
    by (simp add: scanInv_def measureOriginalText_def)
qed

lemma flagged_word:
  "flagged p ws \<Longrightarrow> k < length ws \<Longrightarrow>
     wchars (ws ! k) \<noteq> [] \<and> (\<forall>u \<in> set (butlast (wchars (ws ! k))). \<not> isBreak u)"
proof (induction ws arbitrary: p k)
  case Nil
  then show ?case by simp
next
  case (Cons w ws)
  then show ?case by (cases k) auto
qed

lemma flagged_next:
  "flagged p ws \<Longrightarrow> Suc k < length ws \<Longrightarrow>
     noSpaceBefore (ws ! Suc k) = isBreak (last (wchars (ws ! k)))"
proof (induction ws arbitrary: p k)
  case Nil
  then show ?case by simp
next
  case (Cons w ws)
  show ?case
  proof (cases k)
    case 0
    with Cons.prems show ?thesis by (cases ws) auto
  next
    case (Suc k')
    with Cons show ?thesis by auto
  qed
qed

lemma flagged_first: "flagged p ws \<Longrightarrow> ws \<noteq> [] \<Longrightarrow> noSpaceBefore (ws ! 0) = p"
  by (cases ws) auto

lemma break_is_last:
  assumes "\<forall>u \<in> set (butlast cs). \<not> isBreak u" and "j < length cs" and "isBreak (cs ! j)"
  shows "Suc j = length cs"
proof (rule ccontr)
  assume "Suc j \<noteq> length cs"
  with assms(2) have "j < length (butlast cs)" by simp
  then have "butlast cs ! j \<in> set (butlast cs)" by (rule nth_mem)
  moreover have "butlast cs ! j = cs ! j"
    using \<open>j < length (butlast cs)\<close> by (simp add: nth_butlast)
  ultimately show False using assms(1,3) by auto
qed

section \<open>Building the spans\<close>

lemma nextRef_update [simp]: "nextRef (update r f d) = nextRef d"
  by (simp add: update_def split: option.splits)

lemma body_update [simp]: "body (update r f d) = body d"
  by (simp add: update_def split: option.splits)

lemma createSpan_eq:
  "createSpan cls idx disp d =
     (nextRef d,
      d\<lparr>heap := (heap d)(nextRef d \<mapsto>
            \<lparr>className = cls, dataset_index = idx, dataset_expectedGap = None,
              style_display = disp, style_marginLeft = None, childNodes = []\<rparr>),
        nextRef := Suc (nextRef d)\<rparr>)"
  by (simp add: createSpan_def)

lemma charStep_facts:
  "allWords (charStep opts w mw x b) = allWords b
   \<and> noSpaceBeforeSet (charStep opts w mw x b) = noSpaceBeforeSet b
   \<and> nextRef (page (charStep opts w mw x b)) = Suc (nextRef (page b))
   \<and> body (page (charStep opts w mw x b)) = body (page b)
   \<and> allChars (charStep opts w mw x b) = allChars b @ [nextRef (page b)]"
  by (cases x) (simp add: charStep_def createSpan_eq Let_def appendChild_def setTextContent_def)

lemma fold_charStep_facts:
  "allWords (fold (charStep opts w mw) xs b) = allWords b
   \<and> noSpaceBeforeSet (fold (charStep opts w mw) xs b) = noSpaceBeforeSet b
   \<and> nextRef (page (fold (charStep opts w mw) xs b)) = nextRef (page b) + length xs
   \<and> body (page (fold (charStep opts w mw) xs b)) = body (page b)
   \<and> allChars (fold (charStep opts w mw) xs b) =
       allChars b @ [nextRef (page b) ..< nextRef (page b) + length xs]"
proof (induction xs arbitrary: b)
  case Nil
  then show ?case by simp
next
  case (Cons x xs)
  have "[n..<n + Suc l] = n # [Suc n..<Suc n + l]" for n l :: nat
    by (subst upt_rec) simp
  then show ?case
    by (simp add: Cons.IH charStep_facts)
qed

lemma wordStep_facts:
  "allWords (wordStep opts (k, mw) b) = allWords b @ [nextRef (page b)]
   \<and> noSpaceBeforeSet (wordStep opts (k, mw) b) =
       (if noSpaceBefore mw then {nextRef (page b)} else {}) \<union> noSpaceBeforeSet b
   \<and> nextRef (page (wordStep opts (k, mw) b)) = Suc (nextRef (page b)) + length (wchars mw)
   \<and> body (page (wordStep opts (k, mw) b)) = body (page b)
   \<and> allChars (wordStep opts (k, mw) b) =
       allChars b @ [Suc (nextRef (page b)) ..< Suc (nextRef (page b)) + length (wchars mw)]"
  by (simp add: wordStep_def createSpan_eq Let_def fold_charStep_facts)

lemma fold_wordStep_facts:
  "allWords (fold (wordStep opts) (enumerate k mws) b) = allWords b @ wordRefs (nextRef (page b)) mws
   \<and> noSpaceBeforeSet (fold (wordStep opts) (enumerate k mws) b) =
       noSpaceBeforeSet b \<union> flaggedRefs (nextRef (page b)) mws
   \<and> body (page (fold (wordStep opts) (enumerate k mws) b)) = body (page b)"
proof (induction mws arbitrary: k b)
  case Nil
  then show ?case by simp
next
  case (Cons mw mws)
  show ?case
    by (simp add: Cons.IH wordStep_facts Un_ac)
qed

lemma step2_facts:
  "allWords (step2 opts mws d) = wordRefs (nextRef d) mws
   \<and> noSpaceBeforeSet (step2 opts mws d) = flaggedRefs (nextRef d) mws
   \<and> body (page (step2 opts mws d)) = body d"
  by (simp add: step2_def fold_wordStep_facts)

lemma length_wordRefs [simp]: "length (wordRefs n mws) = length mws"
  by (induction mws arbitrary: n) simp_all

lemma wordRefs_ge: "r \<in> set (wordRefs n mws) \<Longrightarrow> n \<le> r"
  by (induction mws arbitrary: n) fastforce+

lemma flaggedRefs_ge: "r \<in> flaggedRefs n mws \<Longrightarrow> n \<le> r"
  by (induction mws arbitrary: n) (fastforce split: if_splits)+

lemma distinct_wordRefs: "distinct (wordRefs n mws)"
  by (induction mws arbitrary: n) (auto dest: wordRefs_ge)

lemma wordRefs_flagged:
  "k < length mws \<Longrightarrow> wordRefs n mws ! k \<in> flaggedRefs n mws \<longleftrightarrow> noSpaceBefore (mws ! k)"
proof (induction mws arbitrary: n k)
  case Nil
  then show ?case by simp
next
  case (Cons mw mws)
  show ?case
  proof (cases k)
    case 0
    then show ?thesis
      by (auto dest: flaggedRefs_ge)
  next
    case (Suc k')
    with Cons.prems have k': "k' < length mws" by simp
    then have "wordRefs (Suc n + length (wchars mw)) mws ! k' \<in> set (wordRefs (Suc n + length (wchars mw)) mws)"
      by simp
    then have "n < wordRefs (Suc n + length (wchars mw)) mws ! k'"
      by (auto dest: wordRefs_ge)
    with Suc Cons.IH [OF k'] show ?thesis
      by auto
  qed
qed

section \<open>Appending the words\<close>

lemma body_addWord:
  "body (addWord elementAppendChild nsb ws (idx, w) d) =
     body d @ SpanNode w #
       (if idx < length ws - 1 \<and> ws ! (idx + 1) \<notin> nsb then [TextNode SPACE] else [])"
  by (simp add: addWord_def elementAppendChild_def Let_def)

lemma body_fold_addWord:
  "body (fold (addWord elementAppendChild nsb ws) xs d) =
     body d @ concat (map (\<lambda>(idx, w). SpanNode w #
                    (if idx < length ws - 1 \<and> ws ! (idx + 1) \<notin> nsb then [TextNode SPACE] else [])) xs)"
proof (induction xs arbitrary: d)
  case Nil
  then show ?case by simp
next
  case (Cons x xs)
  show ?case
    by (cases x) (simp add: Cons.IH body_addWord)
qed

lemma body_step3: "body (step3 b) = body (page b) @ separated (noSpaceBeforeSet b) (allWords b)"
  by (simp add: step3_def separated_def body_fold_addWord)

lemma enumerate_nth: "enumerate 0 xs = map (\<lambda>k. (k, xs ! k)) [0..<length xs]"
  by (rule nth_equalityI) (simp_all add: nth_enumerate_eq)

lemma separated_nth:
  "separated nsb ws =
     concat (map (\<lambda>k. SpanNode (ws ! k) #
                    (if Suc k < length ws \<and> ws ! Suc k \<notin> nsb then [TextNode SPACE] else []))
               [0..<length ws])"
proof -
  have "(k < length ws - 1) = (Suc k < length ws)" for k
    by auto
  then show ?thesis
    by (simp add: separated_def enumerate_nth comp_def)
qed

lemma separated_measured:
  "separated (flaggedRefs n mws) (wordRefs n mws) =
     concat (map (\<lambda>k. SpanNode (wordRefs n mws ! k) #
                    (if Suc k < length mws \<and> \<not> noSpaceBefore (mws ! Suc k) then [TextNode SPACE] else []))
               [0..<length mws])"
proof -
  have "(Suc k < length mws \<and> wordRefs n mws ! Suc k \<notin> flaggedRefs n mws)
          = (Suc k < length mws \<and> \<not> noSpaceBefore (mws ! Suc k))" for k
    using wordRefs_flagged [of "Suc k" mws n] by auto
  then show ?thesis
    by (simp add: separated_nth)
qed

text \<open>
  C7: in the words that \<open>measureOriginalText\<close> returns, a break character is always the
  last unit of its word, a word is flagged \<open>noSpaceBefore\<close> exactly when the word before
  it ends with a break character, and the first word is not flagged. After STEP 3 the
  target holds the word spans in order, with one space text node after each word that has
  a successor not flagged \<open>noSpaceBefore\<close>, and nothing else.
\<close>

theorem break_characters_and_spaces:
  "let ws = measureOriginalText R kids; b = step2 opts ws d in
     (\<forall>k < length ws. \<forall>j < length (wchars (ws ! k)).
         char (wchars (ws ! k) ! j) \<in> BREAK_CHARS \<longrightarrow> Suc j = length (wchars (ws ! k)))
     \<and> (\<forall>k. Suc k < length ws \<longrightarrow>
           noSpaceBefore (ws ! Suc k) = (char (last (wchars (ws ! k))) \<in> BREAK_CHARS))
     \<and> (ws \<noteq> [] \<longrightarrow> \<not> noSpaceBefore (ws ! 0))
     \<and> length (allWords b) = length ws
     \<and> body (step3 b) =
         body d @ concat (map (\<lambda>k. SpanNode (allWords b ! k) #
                             (if Suc k < length ws \<and> \<not> noSpaceBefore (ws ! Suc k)
                              then [TextNode SPACE] else []))
                        [0..<length ws])"
proof -
  define ws where "ws = measureOriginalText R kids"
  define b where "b = step2 opts ws d"
  have fl: "flagged False ws"
    by (simp add: ws_def flagged_measured)
  have 1: "Suc j = length (wchars (ws ! k))"
    if "k < length ws" "j < length (wchars (ws ! k))" "char (wchars (ws ! k) ! j) \<in> BREAK_CHARS" for k j
    using flagged_word [OF fl that(1)] that(2,3)
    by (intro break_is_last [of "wchars (ws ! k)" j]) (simp_all add: isBreak_def)
  have 2: "noSpaceBefore (ws ! Suc k) = (char (last (wchars (ws ! k))) \<in> BREAK_CHARS)"
    if "Suc k < length ws" for k
    using flagged_next [OF fl that] by (simp add: isBreak_def)
  have 3: "\<not> noSpaceBefore (ws ! 0)" if "ws \<noteq> []"
    using flagged_first [OF fl that] by simp
  have 4: "length (allWords b) = length ws"
    by (simp add: b_def step2_facts)
  have 5: "body (step3 b) =
         body d @ concat (map (\<lambda>k. SpanNode (allWords b ! k) #
                             (if Suc k < length ws \<and> \<not> noSpaceBefore (ws ! Suc k)
                              then [TextNode SPACE] else []))
                        [0..<length ws])"
    by (simp add: body_step3 b_def step2_facts separated_measured)
  from 1 2 3 4 5 show ?thesis
    unfolding Let_def ws_def [symmetric] b_def [symmetric] by blast
qed

text \<open>The text \<open>a\<close>, em dash, \<open>b c\<close> gives three words: the first ends with the dash,
  the second is flagged, the third is not, and only the third has a space before it.\<close>

theorem break_characters_and_spaces_witness:
  "let ws = measureOriginalText mockRange [Text text_dash];
       b = step2 defaultOptions ws (clearElement (load element_dash)) in
     length ws = 3
     \<and> char (wchars (ws ! 0) ! 1) \<in> BREAK_CHARS \<and> length (wchars (ws ! 0)) = 2
     \<and> noSpaceBefore (ws ! 1) \<and> \<not> noSpaceBefore (ws ! 2)
     \<and> body (step3 b) = [SpanNode 0, SpanNode 3, TextNode SPACE, SpanNode 5]"
proof -
  define ws where "ws = measureOriginalText mockRange [Text text_dash]"
  define b where "b = step2 defaultOptions ws (clearElement (load element_dash))"
  have len: "length ws = 3"
    unfolding ws_def by code_simp
  have len0: "1 < length (wchars (ws ! 0))"
    unfolding ws_def by code_simp
  have dash: "char (wchars (ws ! 0) ! 1) \<in> BREAK_CHARS"
    unfolding ws_def by code_simp
  have last0: "char (last (wchars (ws ! 0))) \<in> BREAK_CHARS"
    unfolding ws_def by code_simp
  have last1: "char (last (wchars (ws ! 1))) \<notin> BREAK_CHARS"
    unfolding ws_def by code_simp
  have "wordRefs 0 ws = [0, 3, 5]"
    unfolding ws_def by code_simp
  then have refs: "allWords b = [0, 3, 5]"
    by (simp add: b_def step2_facts clearElement_def load_def)
  have empty: "body (clearElement (load element_dash)) = []"
    by (simp add: clearElement_def)
  note T = break_characters_and_spaces [of mockRange "[Text text_dash]" defaultOptions
      "clearElement (load element_dash)", unfolded Let_def, folded ws_def, folded b_def]
  note T1 = T [THEN conjunct1, rule_format]
    and T2 = T [THEN conjunct2, THEN conjunct1, rule_format]
    and T5 = T [THEN conjunct2, THEN conjunct2, THEN conjunct2, THEN conjunct2]
  have a: "length (wchars (ws ! 0)) = 2"
    using T1 [of 0 1] len len0 dash by simp
  have s1: "noSpaceBefore (ws ! Suc 0)"
    using T2 [of 0] len last0 by simp
  have s2: "\<not> noSpaceBefore (ws ! Suc (Suc 0))"
    using T2 [of "Suc 0"] len last1 by simp
  have f1: "noSpaceBefore (ws ! 1)" and f2: "\<not> noSpaceBefore (ws ! 2)"
    using s1 s2 by (simp_all add: numeral_2_eq_2)
  have "[0..<3] = [0, Suc 0, Suc (Suc 0)]"
    by (simp add: upt_rec numeral_3_eq_3)
  then have "body (step3 b) = [SpanNode 0, SpanNode 3, TextNode SPACE, SpanNode 5]"
    using T5 len s1 s2 refs empty by simp
  with len dash a f1 f2 show ?thesis
    unfolding Let_def ws_def [symmetric] b_def [symmetric] by simp
qed

section \<open>Detecting the lines\<close>

lemma concat_lineStep:
  "concat (lineGroups (lineStep L d w ls)) @ currentLine (lineStep L d w ls) =
     concat (lineGroups ls) @ currentLine ls @ [w]"
  by (simp add: lineStep_def Let_def split: option.splits)

lemma concat_fold_lineStep:
  "concat (lineGroups (fold (lineStep L d) ws ls)) @ currentLine (fold (lineStep L d) ws ls) =
     concat (lineGroups ls) @ currentLine ls @ ws"
proof (induction ws arbitrary: ls)
  case Nil
  then show ?case by simp
next
  case (Cons w ws)
  show ?case
    using concat_lineStep [of L d w ls] by (simp add: Cons.IH)
qed

lemma concat_detectLines: "concat (detectLines L d ws) = ws"
  using concat_fold_lineStep [of L d ws "\<lparr>lineGroups = [], currentLine = [], currentY = None\<rparr>"]
  by (auto simp: detectLines_def Let_def)

lemma lineInv_lineStep: "lineInv ls \<Longrightarrow> lineInv (lineStep L d w ls)"
  by (auto simp: lineInv_def lineStep_def Let_def split: option.splits)

lemma detectLines_nonempty: "[] \<notin> set (detectLines L d ws)"
proof -
  have "lineInv \<lparr>lineGroups = [], currentLine = [], currentY = None\<rparr>"
    by (simp add: lineInv_def)
  then have "lineInv (fold (lineStep L d) ws \<lparr>lineGroups = [], currentLine = [], currentY = None\<rparr>)"
    by (rule fold_preserves) (rule lineInv_lineStep)
  then show ?thesis
    by (simp add: detectLines_def Let_def lineInv_def)
qed

section \<open>Wrapping the lines\<close>

lemma update_eq: "heap d r = Some s \<Longrightarrow> update r f d = d\<lparr>heap := (heap d)(r \<mapsto> f s)\<rparr>"
  by (simp add: update_def)

lemma addWord_span:
  assumes "heap d l = Some s"
  shows "addWord (appendChild l) nsb ws (idx, w) d =
     d\<lparr>heap := (heap d)(l \<mapsto> s\<lparr>childNodes := childNodes s @ SpanNode w #
       (if idx < length ws - 1 \<and> ws ! (idx + 1) \<notin> nsb then [TextNode SPACE] else [])\<rparr>)\<rparr>"
  using assms by (simp add: addWord_def appendChild_def update_eq Let_def)

lemma fold_addWord_span:
  assumes "heap d l = Some s"
  shows "fold (addWord (appendChild l) nsb ws) xs d =
     d\<lparr>heap := (heap d)(l \<mapsto> s\<lparr>childNodes := childNodes s @
       concat (map (\<lambda>(idx, w). SpanNode w #
                    (if idx < length ws - 1 \<and> ws ! (idx + 1) \<notin> nsb then [TextNode SPACE] else [])) xs)\<rparr>)\<rparr>"
  using assms
proof (induction xs arbitrary: d s)
  case Nil
  then show ?case by (simp add: map_upd_triv)
next
  case (Cons x xs)
  obtain idx w where x: "x = (idx, w)" by (cases x)
  let ?s1 = "s\<lparr>childNodes := childNodes s @ SpanNode w #
       (if idx < length ws - 1 \<and> ws ! (idx + 1) \<notin> nsb then [TextNode SPACE] else [])\<rparr>"
  let ?d1 = "d\<lparr>heap := (heap d)(l \<mapsto> ?s1)\<rparr>"
  let ?rest = "concat (map (\<lambda>(idx, w). SpanNode w #
       (if idx < length ws - 1 \<and> ws ! (idx + 1) \<notin> nsb then [TextNode SPACE] else [])) xs)"
  have "fold (addWord (appendChild l) nsb ws) (x # xs) d = fold (addWord (appendChild l) nsb ws) xs ?d1"
    using Cons.prems x by (simp add: addWord_span)
  also have "\<dots> = ?d1\<lparr>heap := (heap ?d1)(l \<mapsto> ?s1\<lparr>childNodes := childNodes ?s1 @ ?rest\<rparr>)\<rparr>"
    by (rule Cons.IH) simp
  also have "\<dots> = d\<lparr>heap := (heap d)(l \<mapsto> s\<lparr>childNodes := childNodes s @
       concat (map (\<lambda>(idx, w). SpanNode w #
                    (if idx < length ws - 1 \<and> ws ! (idx + 1) \<notin> nsb then [TextNode SPACE] else [])) (x # xs))\<rparr>)\<rparr>"
    by (simp add: x)
  finally show ?case .
qed

lemma lineWrap_eq:
  "lineWrap opts nsb (k, ws) (ls, d) =
     (ls @ [nextRef d],
      d\<lparr>heap := (heap d)(nextRef d \<mapsto> lineSpan opts nsb k ws),
        nextRef := Suc (nextRef d),
        body := body d @ [SpanNode (nextRef d)]\<rparr>)"
proof -
  let ?blank = "\<lparr>className = lineClass opts, dataset_index = Some k, dataset_expectedGap = None,
      style_display = Block, style_marginLeft = None, childNodes = []\<rparr>"
  let ?d1 = "d\<lparr>heap := (heap d)(nextRef d \<mapsto> ?blank), nextRef := Suc (nextRef d)\<rparr>"
  have "heap ?d1 (nextRef d) = Some ?blank" by simp
  from fold_addWord_span [OF this, of nsb ws "enumerate 0 ws"] show ?thesis
    by (simp add: lineWrap_def createSpan_def elementAppendChild_def lineSpan_def separated_def)
qed

lemma fold_lineWrap:
  "fst (fold (lineWrap opts nsb) (enumerate k groups) (ls, d)) = ls @ [nextRef d..<nextRef d + length groups]
   \<and> body (snd (fold (lineWrap opts nsb) (enumerate k groups) (ls, d))) =
       body d @ map SpanNode [nextRef d..<nextRef d + length groups]
   \<and> (\<forall>r < nextRef d. heap (snd (fold (lineWrap opts nsb) (enumerate k groups) (ls, d))) r = heap d r)
   \<and> (\<forall>j < length groups. heap (snd (fold (lineWrap opts nsb) (enumerate k groups) (ls, d))) (nextRef d + j) =
         Some (lineSpan opts nsb (k + j) (groups ! j)))"
proof (induction groups arbitrary: k ls d)
  case Nil
  then show ?case by simp
next
  case (Cons g groups)
  let ?d1 = "d\<lparr>heap := (heap d)(nextRef d \<mapsto> lineSpan opts nsb k g),
        nextRef := Suc (nextRef d),
        body := body d @ [SpanNode (nextRef d)]\<rparr>"
  let ?r = "fold (lineWrap opts nsb) (enumerate (Suc k) groups) (ls @ [nextRef d], ?d1)"
  have unfold: "fold (lineWrap opts nsb) (enumerate k (g # groups)) (ls, d) = ?r"
    by (simp add: lineWrap_eq)
  have upt: "[n..<Suc (n + l)] = n # [Suc n..<Suc (n + l)]" for n l :: nat
    by (subst upt_rec) simp
  note IH = Cons.IH [of "Suc k" "ls @ [nextRef d]" ?d1]
  have 1: "fst ?r = ls @ [nextRef d..<nextRef d + length (g # groups)]"
    using IH by (simp add: upt del: upt_Suc)
  have 2: "body (snd ?r) = body d @ map SpanNode [nextRef d..<nextRef d + length (g # groups)]"
    using IH by (simp add: upt del: upt_Suc)
  have 3: "\<forall>r < nextRef d. heap (snd ?r) r = heap d r"
    using IH by simp
  have 4: "heap (snd ?r) (nextRef d + j) = Some (lineSpan opts nsb (k + j) ((g # groups) ! j))"
    if "j < length (g # groups)" for j
  proof (cases j)
    case 0
    then show ?thesis using IH by simp
  next
    case (Suc j')
    with that have "j' < length groups" by simp
    with IH have "heap (snd ?r) (nextRef ?d1 + j') = Some (lineSpan opts nsb (Suc k + j') (groups ! j'))"
      by blast
    with Suc show ?thesis by simp
  qed
  from 1 2 3 4 show ?case
    unfolding unfold by blast
qed

lemma spanRefs_append [simp]: "spanRefs (xs @ ys) = spanRefs xs @ spanRefs ys"
  by (induction xs rule: spanRefs.induct) simp_all

lemma spanRefs_separated: "spanRefs (separated nsb ws) = ws"
proof -
  have "spanRefs (concat (map (\<lambda>(idx, w). SpanNode w #
          (if idx < length ws - 1 \<and> ws ! (idx + 1) \<notin> nsb then [TextNode SPACE] else [])) xs)) = map snd xs"
    for xs
    by (induction xs) auto
  then show ?thesis
    by (simp add: separated_def)
qed

lemma step6_facts:
  "fst (step6 opts nsb groups d) = [nextRef d..<nextRef d + length groups]
   \<and> body (snd (step6 opts nsb groups d)) = map SpanNode (fst (step6 opts nsb groups d))
   \<and> map (children (snd (step6 opts nsb groups d))) (fst (step6 opts nsb groups d)) = groups"
proof -
  let ?d = "clearElement d"
  have n: "nextRef ?d = nextRef d" and b: "body ?d = []"
    by (simp_all add: clearElement_def)
  note F = fold_lineWrap [of opts nsb 0 groups "[]" ?d, folded step6_def, unfolded n b]
  have "children (snd (step6 opts nsb groups d)) (nextRef d + j) = groups ! j" if "j < length groups" for j
    using F that by (simp add: children_def lineSpan_def spanRefs_separated)
  then have "map (children (snd (step6 opts nsb groups d))) [nextRef d..<nextRef d + length groups] = groups"
    by (intro nth_equalityI) simp_all
  with F show ?thesis by simp
qed

lemma distinct_concat_index:
  "distinct (concat gs) \<Longrightarrow> i < length gs \<Longrightarrow> j < length gs \<Longrightarrow>
     x \<in> set (gs ! i) \<Longrightarrow> x \<in> set (gs ! j) \<Longrightarrow> i = j"
proof (induction gs arbitrary: i j)
  case Nil
  then show ?case by simp
next
  case (Cons g gs)
  show ?case
  proof (cases i; cases j)
    fix i' j'
    assume "i = Suc i'" "j = Suc j'"
    with Cons show ?thesis by auto
  next
    fix j'
    assume "i = 0" "j = Suc j'"
    with Cons.prems show ?thesis by (auto dest: nth_mem)
  next
    fix i'
    assume "i = Suc i'" "j = 0"
    with Cons.prems show ?thesis by (auto dest: nth_mem)
  qed simp
qed

section \<open>The result of splitText\<close>

lemma splitText_fst:
  "fst (splitText S L R opts el) =
     (let b = step2 opts (measureOriginalText R (subtree el))
                (clearElement (setAriaLabel (textContent (subtree el)) (load el)));
          d4 = step4 L (allWords b) (step3 b)
      in \<lparr>chars = allChars b, words = allWords b,
           lines = fst (step6 opts (noSpaceBeforeSet b) (detectLines L d4 (allWords b)) d4),
           originalHTML = S (subtree el)\<rparr>)"
  by (simp add: splitText_def Let_def case_prod_beta)

lemma splitText_snd:
  "snd (splitText S L R opts el) =
     (let b = step2 opts (measureOriginalText R (subtree el))
                (clearElement (setAriaLabel (textContent (subtree el)) (load el)));
          d4 = step4 L (allWords b) (step3 b)
      in snd (step6 opts (noSpaceBeforeSet b) (detectLines L d4 (allWords b)) d4))"
  by (simp add: splitText_def Let_def case_prod_beta)

section \<open>Kerning compensation\<close>

lemma compensateChar_eq:
  "compensateChar cs ps i d =
     (case heap d (cs ! i) of
        None \<Rightarrow> d
      | Some s \<Rightarrow> d\<lparr>heap := (heap d)(cs ! i \<mapsto> compensated (dsub (ps ! i) (ps ! (i - 1))) s)\<rparr>)"
  by (simp add: compensateChar_def compensated_def update_def Let_def map_upd_triv
      split: option.splits)

lemma heap_compensateChar:
  "heap (compensateChar cs ps i d) r =
     (if r = cs ! i then map_option (compensated (dsub (ps ! i) (ps ! (i - 1)))) (heap d r)
      else heap d r)"
  by (simp add: compensateChar_eq split: option.splits)

lemma nextRef_compensateChar: "nextRef (compensateChar cs ps i d) = nextRef d"
  by (simp add: compensateChar_eq split: option.splits)

lemma heap_fold_compensateChar_other:
  "r \<notin> (!) cs ` set js \<Longrightarrow> heap (fold (compensateChar cs ps) js d) r = heap d r"
  by (induction js arbitrary: d) (simp_all add: heap_compensateChar)

lemma heap_fold_compensateChar:
  assumes "distinct cs" and "distinct js" and "\<forall>j \<in> set js. j < length cs" and "i \<in> set js"
  shows "heap (fold (compensateChar cs ps) js d) (cs ! i) =
           map_option (compensated (dsub (ps ! i) (ps ! (i - 1)))) (heap d (cs ! i))"
  using assms(2-)
proof (induction js arbitrary: d)
  case Nil
  then show ?case by simp
next
  case (Cons a js)
  show ?case
  proof (cases "i = a")
    case True
    have "cs ! a \<notin> (!) cs ` set js"
      using Cons.prems assms(1) by (auto simp: nth_eq_iff_index_eq)
    then show ?thesis
      using True by (simp add: heap_fold_compensateChar_other heap_compensateChar)
  next
    case False
    with Cons.prems have i: "i \<in> set js" and "i < length cs" "a < length cs"
      by auto
    with False assms(1) have "cs ! i \<noteq> cs ! a"
      by (simp add: nth_eq_iff_index_eq)
    with Cons.IH [of "compensateChar cs ps a d"] Cons.prems i show ?thesis
      by (simp add: heap_compensateChar)
  qed
qed

lemma nth_in_tl: "1 \<le> j \<Longrightarrow> j < length cs \<Longrightarrow> cs ! j \<in> set (tl cs)"
proof -
  assume j: "1 \<le> j" "j < length cs"
  then have "j - 1 < length (tl cs)" by simp
  then have "tl cs ! (j - 1) \<in> set (tl cs)" by (rule nth_mem)
  moreover have "tl cs ! (j - 1) = cs ! j" using j by (simp add: nth_tl)
  ultimately show ?thesis by simp
qed

lemma heap_compensateWord_other:
  assumes "r \<notin> set (tl (children d w))"
  shows "heap (compensateWord L w d) r = heap d r"
proof (cases "length (children d w) < 2")
  case True
  then show ?thesis by (simp add: compensateWord_def)
next
  case False
  have "(!) (children d w) ` set [1..<length (children d w)] \<subseteq> set (tl (children d w))"
    by (auto intro: nth_in_tl)
  with assms have "r \<notin> (!) (children d w) ` set [1..<length (children d w)]" by blast
  with False show ?thesis
    by (simp add: compensateWord_def Let_def heap_fold_compensateChar_other)
qed

lemma heap_compensateWord_char:
  assumes "distinct (children d w)" and "1 \<le> i" and "i < length (children d w)"
  shows "heap (compensateWord L w d) (children d w ! i) =
           map_option (compensated (dsub (rect_left (L d (children d w ! i)))
                                         (rect_left (L d (children d w ! (i - 1))))))
             (heap d (children d w ! i))"
proof -
  define cs where "cs = children d w"
  define ps where "ps = map (\<lambda>c. rect_left (L d c)) cs"
  have long: "\<not> length cs < 2"
    using assms(2,3) by (simp add: cs_def)
  then have cw: "compensateWord L w d = fold (compensateChar cs ps) [1..<length cs] d"
    by (simp add: compensateWord_def Let_def cs_def ps_def)
  have "heap (compensateWord L w d) (cs ! i) =
          map_option (compensated (dsub (ps ! i) (ps ! (i - 1)))) (heap d (cs ! i))"
    unfolding cw using assms
    by (intro heap_fold_compensateChar) (simp_all add: cs_def)
  moreover have "ps ! i = rect_left (L d (cs ! i))" "ps ! (i - 1) = rect_left (L d (cs ! (i - 1)))"
    using assms(3) by (simp_all add: ps_def cs_def)
  ultimately show ?thesis
    by (simp add: cs_def)
qed

lemma nextRef_compensateWord [simp]: "nextRef (compensateWord L w d) = nextRef d"
proof -
  have "nextRef (fold (compensateChar cs ps) js d) = nextRef d" for cs ps js
    by (rule fold_keeps) (rule nextRef_compensateChar)
  then show ?thesis
    by (simp add: compensateWord_def Let_def)
qed

lemma nextRef_step4 [simp]: "nextRef (step4 L ws d) = nextRef d"
  by (simp add: step4_def fold_keeps [where g = nextRef])

lemma heap_step3 [simp]: "heap (step3 b) = heap (page b)"
proof -
  have "heap (addWord elementAppendChild nsb ws x d) = heap d" for nsb ws x d
    by (cases x) (simp add: addWord_def elementAppendChild_def Let_def)
  then show ?thesis
    by (simp add: step3_def fold_keeps [where g = heap])
qed

lemma nextRef_step3 [simp]: "nextRef (step3 b) = nextRef (page b)"
proof -
  have "nextRef (addWord elementAppendChild nsb ws x d) = nextRef d" for nsb ws x d
    by (cases x) (simp add: addWord_def elementAppendChild_def Let_def)
  then show ?thesis
    by (simp add: step3_def fold_keeps [where g = nextRef])
qed

text \<open>The compensation of the words \<open>xs\<close> changes only the character spans after the
  first of these words, when no word of \<open>xs\<close> is such a span.\<close>

lemma heap_fold_compensateWord_other:
  assumes "\<forall>w \<in> set xs. \<forall>w' \<in> set xs. w' \<notin> set (tl (children d w))"
    and "\<forall>w \<in> set xs. r \<notin> set (tl (children d w))"
  shows "heap (fold (compensateWord L) xs d) r = heap d r"
  using assms
proof (induction xs arbitrary: r rule: rev_induct)
  case Nil
  then show ?case by simp
next
  case (snoc x xs)
  let ?D = "fold (compensateWord L) xs d"
  have words: "\<forall>w \<in> set xs. \<forall>w' \<in> set xs. w' \<notin> set (tl (children d w))"
    using snoc.prems(1) by simp
  have "heap ?D x = heap d x"
    using snoc.prems(1) by (intro snoc.IH [OF words]) simp
  then have kids: "children ?D x = children d x"
    by (simp add: children_def)
  have "heap ?D r = heap d r"
    using snoc.prems(2) by (intro snoc.IH [OF words]) simp
  moreover have "heap (compensateWord L x ?D) r = heap ?D r"
    using snoc.prems(2) by (intro heap_compensateWord_other) (simp add: kids)
  ultimately show ?case by simp
qed

section \<open>The spans after STEP 2\<close>

lemma charStep_page:
  assumes "heap (page b) w = Some sw" and "w \<noteq> nextRef (page b)"
  shows "page (charStep opts w mw (j, x) b) =
     (page b)\<lparr>heap := (heap (page b))
                 (nextRef (page b) \<mapsto> charSpanAt opts mw j x,
                  w \<mapsto> sw\<lparr>childNodes := childNodes sw @ [SpanNode (nextRef (page b))]\<rparr>),
              nextRef := Suc (nextRef (page b))\<rparr>"
  using assms
  by (simp add: charStep_def createSpan_def setTextContent_def appendChild_def update_def
      charSpanAt_def Let_def)

lemma fold_charStep_heap:
  assumes "heap (page b) w = Some sw" and "w < nextRef (page b)"
  shows "heap (page (fold (charStep opts w mw) (enumerate j xs) b)) w =
           Some (sw\<lparr>childNodes := childNodes sw @
                   map SpanNode [nextRef (page b)..<nextRef (page b) + length xs]\<rparr>)
         \<and> (\<forall>t < length xs. heap (page (fold (charStep opts w mw) (enumerate j xs) b))
                               (nextRef (page b) + t) =
                             Some (charSpanAt opts mw (j + t) (xs ! t)))
         \<and> (\<forall>r. r < nextRef (page b) \<and> r \<noteq> w \<longrightarrow>
               heap (page (fold (charStep opts w mw) (enumerate j xs) b)) r = heap (page b) r)"
  using assms
proof (induction xs arbitrary: b j sw)
  case Nil
  then show ?case by simp
next
  case (Cons x xs)
  let ?n = "nextRef (page b)"
  let ?sw = "sw\<lparr>childNodes := childNodes sw @ [SpanNode ?n]\<rparr>"
  let ?b1 = "charStep opts w mw (j, x) b"
  let ?r = "fold (charStep opts w mw) (enumerate (Suc j) xs) ?b1"
  have p1: "page ?b1 = (page b)\<lparr>heap := (heap (page b))(?n \<mapsto> charSpanAt opts mw j x, w \<mapsto> ?sw),
              nextRef := Suc ?n\<rparr>"
    using Cons.prems by (intro charStep_page) simp_all
  have h1: "heap (page ?b1) w = Some ?sw" and n1: "nextRef (page ?b1) = Suc ?n"
    by (simp_all add: p1)
  have w1: "w < nextRef (page ?b1)"
    using Cons.prems n1 by simp
  note IH = Cons.IH [OF h1 w1, of "Suc j", unfolded n1]
  have upt: "[n..<Suc (n + l)] = n # [Suc n..<Suc (n + l)]" for n l :: nat
    by (subst upt_rec) simp
  have 1: "heap (page ?r) w =
      Some (sw\<lparr>childNodes := childNodes sw @ map SpanNode [?n..<?n + length (x # xs)]\<rparr>)"
    using IH by (simp add: upt del: upt_Suc)
  have 2: "heap (page ?r) (?n + t) = Some (charSpanAt opts mw (j + t) ((x # xs) ! t))"
    if "t < length (x # xs)" for t
  proof (cases t)
    case 0
    have "heap (page ?r) ?n = heap (page ?b1) ?n"
      using IH Cons.prems(2) by simp
    with 0 Cons.prems(2) show ?thesis
      by (simp add: p1)
  next
    case (Suc t')
    with that IH have "heap (page ?r) (Suc ?n + t') = Some (charSpanAt opts mw (Suc j + t') (xs ! t'))"
      by simp
    with Suc show ?thesis by simp
  qed
  have 3: "heap (page ?r) r = heap (page b) r" if "r < ?n \<and> r \<noteq> w" for r
  proof -
    from that IH have "heap (page ?r) r = heap (page ?b1) r" by simp
    with that show ?thesis by (simp add: p1)
  qed
  have "fold (charStep opts w mw) (enumerate j (x # xs)) b = ?r"
    by simp
  with 1 2 3 show ?case
    by presburger
qed

lemma wordStep_heap:
  "heap (page (wordStep opts (k, mw) b)) (nextRef (page b)) =
     Some (wordSpanOf opts k (nextRef (page b)) (length (wchars mw)))
   \<and> (\<forall>t < length (wchars mw). heap (page (wordStep opts (k, mw) b)) (Suc (nextRef (page b)) + t) =
         Some (charSpanAt opts mw t (wchars mw ! t)))
   \<and> (\<forall>r < nextRef (page b). heap (page (wordStep opts (k, mw) b)) r = heap (page b) r)"
proof -
  let ?n = "nextRef (page b)"
  let ?blank = "\<lparr>className = wordClass opts, dataset_index = Some k, dataset_expectedGap = None,
      style_display = InlineBlock, style_marginLeft = None, childNodes = []\<rparr>"
  let ?d1 = "(page b)\<lparr>heap := (heap (page b))(?n \<mapsto> ?blank), nextRef := Suc ?n\<rparr>"
  let ?b1 = "b\<lparr>page := ?d1,
               noSpaceBeforeSet := (if noSpaceBefore mw then insert ?n (noSpaceBeforeSet b)
                                    else noSpaceBeforeSet b)\<rparr>"
  let ?b2 = "fold (charStep opts ?n mw) (enumerate 0 (wchars mw)) ?b1"
  have page: "page (wordStep opts (k, mw) b) = page ?b2"
    by (simp add: wordStep_def createSpan_def Let_def)
  have h: "heap (page ?b1) ?n = Some ?blank" and lt: "?n < nextRef (page ?b1)"
    by simp_all
  note F = fold_charStep_heap [OF h lt, of opts mw 0 "wchars mw"]
  have n1: "nextRef (page ?b1) = Suc ?n" by simp
  have 1: "heap (page ?b2) ?n = Some (wordSpanOf opts k ?n (length (wchars mw)))"
    using F by (simp add: wordSpanOf_def)
  have 2: "heap (page ?b2) (Suc ?n + t) = Some (charSpanAt opts mw t (wchars mw ! t))"
    if "t < length (wchars mw)" for t
    using F that by (simp add: n1)
  have 3: "heap (page ?b2) r = heap (page b) r" if "r < ?n" for r
  proof -
    from that have "r < nextRef (page ?b1) \<and> r \<noteq> ?n" by simp
    with F have "heap (page ?b2) r = heap (page ?b1) r" by blast
    with that show ?thesis by simp
  qed
  from 1 2 3 show ?thesis
    unfolding page by blast
qed

lemma nextRef_wordStep: "nextRef (page (wordStep opts (k, mw) b)) = Suc (nextRef (page b)) + length (wchars mw)"
  by (simp add: wordStep_facts)

lemma fold_wordStep_heap:
  "(\<forall>k < length mws.
      heap (page (fold (wordStep opts) (enumerate k0 mws) b)) (wordRefs (nextRef (page b)) mws ! k) =
        Some (wordSpanOf opts (k0 + k) (wordRefs (nextRef (page b)) mws ! k) (length (wchars (mws ! k))))
      \<and> (\<forall>t < length (wchars (mws ! k)).
            heap (page (fold (wordStep opts) (enumerate k0 mws) b))
                 (Suc (wordRefs (nextRef (page b)) mws ! k) + t) =
              Some (charSpanAt opts (mws ! k) t (wchars (mws ! k) ! t))))
   \<and> (\<forall>r < nextRef (page b). heap (page (fold (wordStep opts) (enumerate k0 mws) b)) r = heap (page b) r)
   \<and> nextRef (page (fold (wordStep opts) (enumerate k0 mws) b)) = endRef (nextRef (page b)) mws"
proof (induction mws arbitrary: b k0)
  case Nil
  then show ?case by simp
next
  case (Cons mw mws)
  let ?n = "nextRef (page b)"
  let ?b1 = "wordStep opts (k0, mw) b"
  let ?n1 = "Suc ?n + length (wchars mw)"
  let ?r = "fold (wordStep opts) (enumerate (Suc k0) mws) ?b1"
  have n1: "nextRef (page ?b1) = ?n1"
    by (rule nextRef_wordStep)
  note IH = Cons.IH [of "Suc k0" ?b1, unfolded n1]
  note W = wordStep_heap [of opts k0 mw b]
  have frame1: "heap (page ?r) r = heap (page ?b1) r" if "r < ?n1" for r
    using IH that by blast
  have 1: "heap (page ?r) (wordRefs ?n (mw # mws) ! k) =
        Some (wordSpanOf opts (k0 + k) (wordRefs ?n (mw # mws) ! k) (length (wchars ((mw # mws) ! k))))
      \<and> (\<forall>t < length (wchars ((mw # mws) ! k)).
            heap (page ?r) (Suc (wordRefs ?n (mw # mws) ! k) + t) =
              Some (charSpanAt opts ((mw # mws) ! k) t (wchars ((mw # mws) ! k) ! t)))"
    if "k < length (mw # mws)" for k
  proof (cases k)
    case 0
    have "heap (page ?r) ?n = Some (wordSpanOf opts k0 ?n (length (wchars mw)))"
      using W frame1 [of ?n] by simp
    moreover have "heap (page ?r) (Suc ?n + t) = Some (charSpanAt opts mw t (wchars mw ! t))"
      if "t < length (wchars mw)" for t
      using W frame1 [of "Suc ?n + t"] that by simp
    ultimately show ?thesis
      using 0 by simp
  next
    case (Suc k')
    with that have "k' < length mws" by simp
    with IH Suc show ?thesis by simp
  qed
  have 2: "heap (page ?r) r = heap (page b) r" if "r < ?n" for r
    using W frame1 [of r] that by simp
  have 3: "nextRef (page ?r) = endRef ?n (mw # mws)"
    using IH by simp
  have "fold (wordStep opts) (enumerate k0 (mw # mws)) b = ?r"
    by simp
  with 1 2 3 show ?case
    by presburger
qed

lemma wordRefs_gap:
  "j < k \<Longrightarrow> k < length mws \<Longrightarrow> wordRefs n mws ! j + length (wchars (mws ! j)) < wordRefs n mws ! k"
proof (induction mws arbitrary: n j k)
  case Nil
  then show ?case by simp
next
  case (Cons mw mws)
  from Cons.prems obtain k' where k: "k = Suc k'" "k' < length mws"
    by (cases k) auto
  show ?case
  proof (cases j)
    case 0
    have "wordRefs (Suc n + length (wchars mw)) mws ! k' \<in> set (wordRefs (Suc n + length (wchars mw)) mws)"
      using k by simp
    then have "Suc n + length (wchars mw) \<le> wordRefs (Suc n + length (wchars mw)) mws ! k'"
      by (rule wordRefs_ge)
    with 0 k show ?thesis by simp
  next
    case (Suc j')
    with Cons.prems k have "j' < k'" by simp
    from Cons.IH [OF this k(2)] Suc k show ?thesis by simp
  qed
qed

lemma wordRefs_end:
  "k < length mws \<Longrightarrow> wordRefs n mws ! k + length (wchars (mws ! k)) < endRef n mws"
proof (induction mws arbitrary: n k)
  case Nil
  then show ?case by simp
next
  case (Cons mw mws)
  have mono: "m \<le> endRef m ws" for m ws
  proof (induction ws arbitrary: m)
    case Nil
    then show ?case by simp
  next
    case (Cons a ws)
    from Cons [of "Suc m + length (wchars a)"] show ?case by simp
  qed
  show ?case
  proof (cases k)
    case 0
    show ?thesis
      using 0 mono [of "Suc n + length (wchars mw)" mws] by simp
  next
    case (Suc k')
    with Cons.prems have "k' < length mws" by simp
    from Cons.IH [OF this] Suc show ?thesis by simp
  qed
qed

section \<open>The compensation inside splitText\<close>

lemma spanRefs_SpanNode [simp]: "spanRefs (map SpanNode rs) = rs"
  by (induction rs) simp_all

lemma tl_upt: "set (tl [Suc w..<Suc w + len]) = {r. Suc w < r \<and> r \<le> w + len}"
proof (cases len)
  case 0
  then show ?thesis by auto
next
  case (Suc l)
  have "[Suc w..<Suc w + Suc l] = Suc w # [Suc (Suc w)..<Suc w + Suc l]"
    by (subst upt_rec) simp
  with Suc show ?thesis by auto
qed

lemma step4_split:
  "k < length ws \<Longrightarrow>
     step4 L ws d = step4 L (drop (Suc k) ws) (compensateWord L (ws ! k) (step4 L (take k ws) d))"
proof -
  assume "k < length ws"
  then have "ws = take k ws @ ws ! k # drop (Suc k) ws"
    by (simp add: id_take_nth_drop)
  then have "step4 L ws d = step4 L (take k ws @ ws ! k # drop (Suc k) ws) d"
    by simp
  then show ?thesis
    by (simp add: step4_def)
qed

lemma step4_words:
  fixes mws :: "MeasuredWord list" and d1 :: dom and opts :: SplitTextOptions and L :: layout
    and k :: nat
  assumes k: "k < length mws"
  defines "ws \<equiv> wordRefs (nextRef d1) mws"
  defines "d3 \<equiv> step3 (step2 opts mws d1)"
  defines "w \<equiv> ws ! k"
  defines "mcs \<equiv> wchars (mws ! k)"
  defines "D \<equiv> step4 L (take k ws) d3"
  shows "children D w = [Suc w..<Suc w + length mcs]"
    and "\<forall>i < length mcs. heap D (Suc w + i) = Some (charSpanAt opts (mws ! k) i (mcs ! i))"
    and "\<forall>i. 1 \<le> i \<and> i < length mcs \<longrightarrow>
           heap (step4 L ws d3) (Suc w + i) =
             Some (compensated (dsub (rect_left (L D (Suc w + i))) (rect_left (L D (Suc w + (i - 1)))))
                     (charSpanAt opts (mws ! k) i (mcs ! i)))"
    and "Suc w + length mcs \<le> nextRef (step4 L ws d3)"
proof -
  let ?b0 = "\<lparr>page = d1, allChars = [], allWords = [], noSpaceBeforeSet = {}\<rparr>"
  note H = fold_wordStep_heap [of mws opts 0 ?b0, folded step2_def, simplified, folded ws_def]
  have len: "length ws = length mws"
    by (simp add: ws_def)
  have word: "heap d3 (ws ! j) = Some (wordSpanOf opts j (ws ! j) (length (wchars (mws ! j))))"
    if "j < length mws" for j
    using H that by (simp add: d3_def)
  have char: "heap d3 (Suc (ws ! j) + t) = Some (charSpanAt opts (mws ! j) t (wchars (mws ! j) ! t))"
    if "j < length mws" "t < length (wchars (mws ! j))" for j t
    using H that by (simp add: d3_def)
  have next3: "nextRef d3 = endRef (nextRef d1) mws"
    using H by (simp add: d3_def)
  have kids3: "children d3 (ws ! j) = [Suc (ws ! j)..<Suc (ws ! j) + length (wchars (mws ! j))]"
    if "j < length mws" for j
    using word [OF that] by (simp add: children_def wordSpanOf_def)
  have tlkids: "set (tl (children d3 (ws ! j))) =
      {r. Suc (ws ! j) < r \<and> r \<le> ws ! j + length (wchars (mws ! j))}"
    if "j < length mws" for j
    by (simp only: kids3 [OF that] tl_upt)
  have gap: "ws ! i + length (wchars (mws ! i)) < ws ! j" if "i < j" "j < length mws" for i j
    using that by (simp add: ws_def wordRefs_gap)
  text \<open>No word span is a character span after the first of a word.\<close>
  have A: "ws ! i \<notin> set (tl (children d3 (ws ! j)))" if "i < length mws" "j < length mws" for i j
  proof -
    consider "i < j" | "i = j" | "j < i" by linarith
    then show ?thesis
    proof cases
      case 1
      with gap [of i j] that show ?thesis by (simp add: tlkids)
    next
      case 2
      with that show ?thesis by (simp add: tlkids)
    next
      case 3
      with gap [of j i] that show ?thesis by (simp add: tlkids)
    qed
  qed
  text \<open>No character span of the word \<open>k\<close> is one of another word.\<close>
  have B: "Suc w + t \<notin> set (tl (children d3 (ws ! j)))"
    if "j < length mws" "j \<noteq> k" "t < length mcs" for j t
  proof -
    from \<open>j \<noteq> k\<close> consider "j < k" | "k < j" by linarith
    then show ?thesis
    proof cases
      case 1
      with gap [of j k] k that show ?thesis by (simp add: tlkids w_def)
    next
      case 2
      with gap [of k j] k that show ?thesis by (simp add: tlkids w_def mcs_def)
    qed
  qed
  have sub: "\<exists>j < length mws. x = ws ! j" if "x \<in> set xs" "set xs \<subseteq> set ws" for x xs
    using that len by (metis in_set_conv_nth subsetD)
  have wordsOK: "\<forall>x \<in> set xs. \<forall>x' \<in> set xs. x' \<notin> set (tl (children d3 x))" if "set xs \<subseteq> set ws" for xs
    using that A sub by metis
  have keep: "heap (fold (compensateWord L) xs d3) (ws ! j) = heap d3 (ws ! j)"
    if "set xs \<subseteq> set ws" "j < length mws" for xs j
  proof (rule heap_fold_compensateWord_other [OF wordsOK [OF that(1)]])
    show "\<forall>x \<in> set xs. ws ! j \<notin> set (tl (children d3 x))"
      using that A sub by metis
  qed
  have kidsAny: "children (fold (compensateWord L) xs d3) (ws ! j) = children d3 (ws ! j)"
    if "set xs \<subseteq> set ws" "j < length mws" for xs j
    using keep [OF that] by (simp add: children_def)
  have dist: "distinct ws"
    by (simp add: ws_def distinct_wordRefs)
  have take_sub: "set (take k ws) \<subseteq> set ws" and takeS_sub: "set (take (Suc k) ws) \<subseteq> set ws"
    and drop_sub: "set (drop (Suc k) ws) \<subseteq> set ws"
    by (auto dest: in_set_takeD in_set_dropD)
  have "ws = take k ws @ ws ! k # drop (Suc k) ws"
    using k len by (simp add: id_take_nth_drop)
  with dist have parts: "distinct (take k ws @ ws ! k # drop (Suc k) ws)"
    by metis
  have notk_take: "x \<noteq> ws ! k" if "x \<in> set (take k ws)" for x
    using parts that by auto
  have notk_drop: "x \<noteq> ws ! k" if "x \<in> set (drop (Suc k) ws)" for x
    using parts that by auto
  show kidsD: "children D w = [Suc w..<Suc w + length mcs]"
    using kidsAny [OF take_sub k] by (simp add: D_def step4_def kids3 [OF k] w_def mcs_def)
  have charD: "heap D (Suc w + i) = heap d3 (Suc w + i)" if "i < length mcs" for i
    unfolding D_def step4_def
  proof (rule heap_fold_compensateWord_other [OF wordsOK [OF take_sub]])
    show "\<forall>x \<in> set (take k ws). Suc w + i \<notin> set (tl (children d3 x))"
    proof
      fix x assume x: "x \<in> set (take k ws)"
      with sub [OF x take_sub] notk_take [OF x] obtain j where "j < length mws" "x = ws ! j" "j \<noteq> k"
        by auto
      with B that show "Suc w + i \<notin> set (tl (children d3 x))" by simp
    qed
  qed
  show charsD: "\<forall>i < length mcs. heap D (Suc w + i) = Some (charSpanAt opts (mws ! k) i (mcs ! i))"
    using charD char [OF k] by (simp add: w_def mcs_def)
  let ?E = "compensateWord L w D"
  have E: "?E = fold (compensateWord L) (take (Suc k) ws) d3"
    using k len by (simp add: D_def step4_def take_Suc_conv_app_nth w_def)
  have split: "step4 L ws d3 = fold (compensateWord L) (drop (Suc k) ws) ?E"
    using step4_split [of k ws L d3] k len by (simp add: D_def w_def step4_def)
  have kidsE: "children ?E (ws ! j) = children d3 (ws ! j)" if "j < length mws" for j
    unfolding E by (rule kidsAny [OF takeS_sub that])
  have wordsE: "\<forall>x \<in> set (drop (Suc k) ws). \<forall>x' \<in> set (drop (Suc k) ws). x' \<notin> set (tl (children ?E x))"
    using wordsOK [OF drop_sub] kidsE sub [OF _ drop_sub] by metis
  have after: "heap (step4 L ws d3) (Suc w + i) = heap ?E (Suc w + i)" if "i < length mcs" for i
    unfolding split
  proof (rule heap_fold_compensateWord_other [OF wordsE])
    show "\<forall>x \<in> set (drop (Suc k) ws). Suc w + i \<notin> set (tl (children ?E x))"
    proof
      fix x assume x: "x \<in> set (drop (Suc k) ws)"
      with sub [OF x drop_sub] notk_drop [OF x] obtain j where j: "j < length mws" "x = ws ! j" "j \<noteq> k"
        by auto
      with B that have "Suc w + i \<notin> set (tl (children d3 x))" by simp
      with j kidsE show "Suc w + i \<notin> set (tl (children ?E x))" by simp
    qed
  qed
  show "\<forall>i. 1 \<le> i \<and> i < length mcs \<longrightarrow>
           heap (step4 L ws d3) (Suc w + i) =
             Some (compensated (dsub (rect_left (L D (Suc w + i))) (rect_left (L D (Suc w + (i - 1)))))
                     (charSpanAt opts (mws ! k) i (mcs ! i)))"
  proof (intro allI impI)
    fix i assume i: "1 \<le> i \<and> i < length mcs"
    then have nth: "children D w ! i = Suc w + i" "children D w ! (i - 1) = Suc w + (i - 1)"
      by (simp_all add: kidsD del: upt_Suc)
    have "heap ?E (children D w ! i) =
            map_option (compensated (dsub (rect_left (L D (children D w ! i)))
                                          (rect_left (L D (children D w ! (i - 1))))))
              (heap D (children D w ! i))"
      using i by (intro heap_compensateWord_char) (auto simp: kidsD simp del: upt_Suc)
    with i charsD after nth show "heap (step4 L ws d3) (Suc w + i) =
             Some (compensated (dsub (rect_left (L D (Suc w + i))) (rect_left (L D (Suc w + (i - 1)))))
                     (charSpanAt opts (mws ! k) i (mcs ! i)))"
      by simp
  qed
  show "Suc w + length mcs \<le> nextRef (step4 L ws d3)"
    using wordRefs_end [OF k, of "nextRef d1"] by (simp add: next3 w_def ws_def mcs_def)
qed

lemma words_splitText:
  "words (fst (splitText S L R opts el)) = wordRefs 0 (measureOriginalText R (subtree el))"
  by (simp add: splitText_fst Let_def step2_facts clearElement_def setAriaLabel_def load_def)

lemma heap_step6:
  "r < nextRef d \<Longrightarrow> heap (snd (step6 opts nsb groups d)) r = heap d r"
  using fold_lineWrap [of opts nsb 0 groups "[]" "clearElement d"]
  by (simp add: step6_def clearElement_def)

text \<open>
  C4: in \<open>splitText\<close>, let \<open>D\<close> be the page when STEP 4 reaches the word number \<open>k\<close>,
  that is after the compensation of the words before it. The character spans \<open>cs\<close> of
  that word are then the spans made for its units, and every span at an index \<open>i\<close> from
  1 on carries the annotation \<open>originalGap\<close>, the difference of the measured positions
  of the units \<open>i\<close> and \<open>i - 1\<close>. With \<open>delta\<close> the annotation minus the gap between the
  spans \<open>i\<close> and \<open>i - 1\<close> as rendered in \<open>D\<close>, all in the arithmetic of doubles, the span
  has in the result of \<open>splitText\<close> the left margin \<open>Math.round(delta * 100) / 100\<close> if
  \<open>\<bar>delta\<bar> < 20\<close> and no left margin otherwise, and no annotation in both cases. This
  holds for every word and every index, whatever happens at the others.
\<close>

theorem kerning_compensation:
  "let mws = measureOriginalText R (subtree el); (r, d) = splitText S L R opts el in
     length (words r) = length mws
     \<and> (\<forall>k < length mws.
          let w = words r ! k; mcs = wchars (mws ! k);
              D = step4 L (take k (words r)) (afterStep3 R opts el);
              cs = children D w
          in step4 L (drop k (words r)) D = step4 L (words r) (afterStep3 R opts el)
             \<and> cs = [Suc w..<Suc w + length mcs]
             \<and> (\<forall>i. 1 \<le> i \<and> i < length mcs \<longrightarrow>
                   (let originalGap = dsub (left (mcs ! i)) (left (mcs ! (i - 1)));
                        currentGap = dsub (rect_left (L D (cs ! i))) (rect_left (L D (cs ! (i - 1))));
                        delta = dsub originalGap currentGap
                    in map_option dataset_expectedGap (heap D (cs ! i)) = Some (Some originalGap)
                       \<and> map_option style_marginLeft (heap d (cs ! i)) =
                           Some (if \<bar>delta\<bar> < 20
                                 then Some (ddiv (of_int (round (dmul delta 100))) 100)
                                 else None)
                       \<and> map_option dataset_expectedGap (heap d (cs ! i)) = Some None)))"
proof -
  define mws where "mws = measureOriginalText R (subtree el)"
  define d1 where "d1 = clearElement (setAriaLabel (textContent (subtree el)) (load el))"
  define b where "b = step2 opts mws d1"
  define ws where "ws = wordRefs 0 mws"
  define d3 where "d3 = step3 b"
  define d4 where "d4 = step4 L ws d3"
  define d where "d = snd (step6 opts (noSpaceBeforeSet b) (detectLines L d4 ws) d4)"
  have n1: "nextRef d1 = 0"
    by (simp add: d1_def clearElement_def setAriaLabel_def load_def)
  have ws: "allWords b = ws"
    by (simp add: b_def ws_def step2_facts n1)
  have r: "words (fst (splitText S L R opts el)) = ws"
    by (simp add: splitText_fst Let_def ws [symmetric] b_def d1_def mws_def)
  have s: "snd (splitText S L R opts el) = d"
    by (simp add: splitText_snd Let_def d_def d4_def d3_def ws [symmetric] b_def d1_def mws_def)
  have a3: "afterStep3 R opts el = d3"
    by (simp add: afterStep3_def d3_def b_def d1_def mws_def)
  have len: "length ws = length mws"
    by (simp add: ws_def)
  have main: "step4 L (drop k ws) (step4 L (take k ws) d3) = step4 L ws d3
      \<and> children (step4 L (take k ws) d3) (ws ! k) = [Suc (ws ! k)..<Suc (ws ! k) + length (wchars (mws ! k))]
      \<and> (\<forall>i. 1 \<le> i \<and> i < length (wchars (mws ! k)) \<longrightarrow>
            map_option dataset_expectedGap (heap (step4 L (take k ws) d3) (Suc (ws ! k) + i)) =
              Some (Some (dsub (left (wchars (mws ! k) ! i)) (left (wchars (mws ! k) ! (i - 1)))))
            \<and> map_option style_marginLeft (heap d (Suc (ws ! k) + i)) =
                Some (if \<bar>dsub (dsub (left (wchars (mws ! k) ! i)) (left (wchars (mws ! k) ! (i - 1))))
                              (dsub (rect_left (L (step4 L (take k ws) d3) (Suc (ws ! k) + i)))
                                    (rect_left (L (step4 L (take k ws) d3) (Suc (ws ! k) + (i - 1)))))\<bar> < 20
                      then Some (ddiv (of_int (round (dmul
                             (dsub (dsub (left (wchars (mws ! k) ! i)) (left (wchars (mws ! k) ! (i - 1))))
                              (dsub (rect_left (L (step4 L (take k ws) d3) (Suc (ws ! k) + i)))
                                    (rect_left (L (step4 L (take k ws) d3) (Suc (ws ! k) + (i - 1))))))
                             100))) 100)
                      else None)
            \<and> map_option dataset_expectedGap (heap d (Suc (ws ! k) + i)) = Some None)"
    if k: "k < length mws" for k
  proof -
    let ?D = "step4 L (take k ws) d3"
    let ?w = "ws ! k"
    let ?mcs = "wchars (mws ! k)"
    note W = step4_words [OF k, where ?d1.0 = d1 and ?opts = opts and ?L = L,
        unfolded n1, folded ws_def b_def, folded d3_def]
    have 1: "step4 L (drop k ws) ?D = step4 L ws d3"
    proof -
      have "fold (compensateWord L) (take k ws @ drop k ws) d3 = fold (compensateWord L) ws d3"
        by simp
      then show ?thesis
        unfolding step4_def fold_append by simp
    qed
    have 3: "map_option dataset_expectedGap (heap ?D (Suc ?w + i)) =
               Some (Some (dsub (left (?mcs ! i)) (left (?mcs ! (i - 1)))))
           \<and> map_option style_marginLeft (heap d (Suc ?w + i)) =
                Some (if \<bar>dsub (dsub (left (?mcs ! i)) (left (?mcs ! (i - 1))))
                              (dsub (rect_left (L ?D (Suc ?w + i))) (rect_left (L ?D (Suc ?w + (i - 1)))))\<bar> < 20
                      then Some (ddiv (of_int (round (dmul
                             (dsub (dsub (left (?mcs ! i)) (left (?mcs ! (i - 1))))
                              (dsub (rect_left (L ?D (Suc ?w + i))) (rect_left (L ?D (Suc ?w + (i - 1))))))
                             100))) 100)
                      else None)
           \<and> map_option dataset_expectedGap (heap d (Suc ?w + i)) = Some None"
      if i: "1 \<le> i \<and> i < length ?mcs" for i
    proof -
      have hD: "heap ?D (Suc ?w + i) = Some (charSpanAt opts (mws ! k) i (?mcs ! i))"
        using W(2) i by blast
      have h4: "heap d4 (Suc ?w + i) =
          Some (compensated (dsub (rect_left (L ?D (Suc ?w + i))) (rect_left (L ?D (Suc ?w + (i - 1)))))
                  (charSpanAt opts (mws ! k) i (?mcs ! i)))"
        using W(3) i unfolding d4_def by blast
      have "Suc ?w + i < nextRef d4"
        using W(4) i unfolding d4_def by linarith
      then have "heap d (Suc ?w + i) = heap d4 (Suc ?w + i)"
        unfolding d_def by (rule heap_step6)
      with hD h4 i show ?thesis
        by (simp add: compensated_def charSpanAt_def Let_def)
    qed
    from 1 W(1) 3 show ?thesis by blast
  qed
  have nth: "[Suc w..<Suc w + n] ! i = Suc w + i" "[Suc w..<Suc w + n] ! (i - 1) = Suc w + (i - 1)"
    if "1 \<le> i \<and> i < n" for w n i
    using that by (simp_all del: upt_Suc)
  show ?thesis
    unfolding Let_def case_prod_beta r s a3 mws_def [symmetric]
  proof (intro conjI allI impI)
    show "length ws = length mws" by (rule len)
  next
    fix k assume "k < length mws"
    then show "step4 L (drop k ws) (step4 L (take k ws) d3) = step4 L ws d3"
      using main by blast
  next
    fix k assume "k < length mws"
    then show "children (step4 L (take k ws) d3) (ws ! k) =
        [Suc (ws ! k)..<Suc (ws ! k) + length (wchars (mws ! k))]"
      using main by blast
  next
    fix k i assume k: "k < length mws" and i: "1 \<le> i \<and> i < length (wchars (mws ! k))"
    from main [OF k] have kids: "children (step4 L (take k ws) d3) (ws ! k) =
        [Suc (ws ! k)..<Suc (ws ! k) + length (wchars (mws ! k))]"
      by blast
    from main [OF k] i
    show "map_option dataset_expectedGap
            (heap (step4 L (take k ws) d3) (children (step4 L (take k ws) d3) (ws ! k) ! i)) =
          Some (Some (dsub (left (wchars (mws ! k) ! i)) (left (wchars (mws ! k) ! (i - 1)))))"
      unfolding kids nth [OF i] by blast
  next
    fix k i assume k: "k < length mws" and i: "1 \<le> i \<and> i < length (wchars (mws ! k))"
    from main [OF k] have kids: "children (step4 L (take k ws) d3) (ws ! k) =
        [Suc (ws ! k)..<Suc (ws ! k) + length (wchars (mws ! k))]"
      by blast
    from main [OF k] i
    show "map_option style_marginLeft (heap d (children (step4 L (take k ws) d3) (ws ! k) ! i)) =
       Some (if \<bar>dsub (dsub (left (wchars (mws ! k) ! i)) (left (wchars (mws ! k) ! (i - 1))))
                 (dsub (rect_left (L (step4 L (take k ws) d3) (children (step4 L (take k ws) d3) (ws ! k) ! i)))
                       (rect_left (L (step4 L (take k ws) d3)
                                     (children (step4 L (take k ws) d3) (ws ! k) ! (i - 1)))))\<bar> < 20
             then Some (ddiv (of_int (round (dmul
                    (dsub (dsub (left (wchars (mws ! k) ! i)) (left (wchars (mws ! k) ! (i - 1))))
                      (dsub (rect_left (L (step4 L (take k ws) d3) (children (step4 L (take k ws) d3) (ws ! k) ! i)))
                            (rect_left (L (step4 L (take k ws) d3)
                                          (children (step4 L (take k ws) d3) (ws ! k) ! (i - 1))))))
                    100))) 100)
             else None)"
      unfolding kids nth [OF i] by blast
  next
    fix k i assume k: "k < length mws" and i: "1 \<le> i \<and> i < length (wchars (mws ! k))"
    from main [OF k] have kids: "children (step4 L (take k ws) d3) (ws ! k) =
        [Suc (ws ! k)..<Suc (ws ! k) + length (wchars (mws ! k))]"
      by blast
    from main [OF k] i
    show "map_option dataset_expectedGap (heap d (children (step4 L (take k ws) d3) (ws ! k) ! i)) = Some None"
      unfolding kids nth [OF i] by blast
  qed
qed

text \<open>For the text \<open>fi\<close>: when \<open>delta\<close> is the double 0.015, \<open>delta * 100\<close> is 1.5 and the
  margin is the double 0.02; when the annotation is the double 20.02 and the gap the
  double 0.02, \<open>delta\<close> is 20 and no margin is set.\<close>

theorem kerning_compensation_witness:
  "length (measureOriginalText rangeTie (subtree element_fi)) = 1
   \<and> length (wchars (measureOriginalText rangeTie (subtree element_fi) ! 0)) = 2
   \<and> (let (r, d) = splitText htmlSerialize layoutFlat rangeTie defaultOptions element_fi in
        words r = [0]
        \<and> map_option style_marginLeft (heap d 2) = Some (Some (fl (2 / 100)))
        \<and> map_option dataset_expectedGap (heap d 2) = Some None)
   \<and> (let (r, d) = splitText htmlSerialize layoutBound rangeBound defaultOptions element_fi in
        map_option style_marginLeft (heap d 2) = Some None)"
proof -
  define tie where "tie = measureOriginalText rangeTie (subtree element_fi)"
  define bound where "bound = measureOriginalText rangeBound (subtree element_fi)"
  have lt: "length tie = 1" "length (wchars (tie ! 0)) = 2"
    and lb: "length bound = 1" "length (wchars (bound ! 0)) = 2"
    unfolding tie_def bound_def by code_simp+
  have leftt: "left (wchars (tie ! 0) ! 1) = fl (15 / 1000)" "left (wchars (tie ! 0) ! 0) = 0"
    and leftb: "left (wchars (bound ! 0) ! 1) = fl (2002 / 100)" "left (wchars (bound ! 0) ! 0) = 0"
    unfolding tie_def bound_def by code_simp+
  have wt: "wordRefs 0 tie = [0]" and wb: "wordRefs 0 bound = [0]"
    unfolding tie_def bound_def by code_simp+
  have deltat: "dsub (dsub (fl (15 / 1000)) 0) (dsub 0 0) = fl (15 / 1000)"
    and smallt: "\<bar>fl (15 / 1000)\<bar> < 20"
    and margint: "ddiv (of_int (round (dmul (fl (15 / 1000)) 100))) 100 = fl (2 / 100)"
    and deltab: "dsub (dsub (fl (2002 / 100)) 0) (dsub (fl (2 / 100)) 0) = 20"
    by code_simp+
  have upt: "[Suc 0..<Suc 0 + 2] = [1, 2]"
    by (simp add: upt_rec)
  note Tt = kerning_compensation [where R = rangeTie and el = element_fi and S = htmlSerialize
      and L = layoutFlat and opts = defaultOptions,
      unfolded Let_def case_prod_beta words_splitText, folded tie_def,
      THEN conjunct2, rule_format, of 0, unfolded wt lt,
      THEN conjunct2, THEN conjunct2, rule_format, of 1]
  note Tb = kerning_compensation [where R = rangeBound and el = element_fi and S = htmlSerialize
      and L = layoutBound and opts = defaultOptions,
      unfolded Let_def case_prod_beta words_splitText, folded bound_def,
      THEN conjunct2, rule_format, of 0, unfolded wb lb,
      THEN conjunct2, THEN conjunct2, rule_format, of 1]
  have kidst: "children (step4 layoutFlat (take 0 [0]) (afterStep3 rangeTie defaultOptions element_fi)) 0 = [1, 2]"
    using kerning_compensation [where R = rangeTie and el = element_fi and S = htmlSerialize
      and L = layoutFlat and opts = defaultOptions,
      unfolded Let_def case_prod_beta words_splitText, folded tie_def,
      THEN conjunct2, rule_format, of 0, unfolded wt lt]
    by (simp add: upt)
  have kidsb: "children (step4 layoutBound (take 0 [0]) (afterStep3 rangeBound defaultOptions element_fi)) 0 = [1, 2]"
    using kerning_compensation [where R = rangeBound and el = element_fi and S = htmlSerialize
      and L = layoutBound and opts = defaultOptions,
      unfolded Let_def case_prod_beta words_splitText, folded bound_def,
      THEN conjunct2, rule_format, of 0, unfolded wb lb]
    by (simp add: upt)
  have t: "map_option style_marginLeft
             (heap (snd (splitText htmlSerialize layoutFlat rangeTie defaultOptions element_fi)) 2) =
           Some (Some (fl (2 / 100)))
         \<and> map_option dataset_expectedGap
             (heap (snd (splitText htmlSerialize layoutFlat rangeTie defaultOptions element_fi)) 2) =
           Some None"
    using Tt kidst leftt smallt deltat margint by (simp add: layoutFlat_def)
  have b: "map_option style_marginLeft
             (heap (snd (splitText htmlSerialize layoutBound rangeBound defaultOptions element_fi)) 2) =
           Some None"
    using Tb kidsb leftb deltab by (simp add: layoutBound_def)
  from t b lt wt show ?thesis
    by (simp add: case_prod_beta words_splitText tie_def)
qed

section \<open>Lines and words of the result\<close>

text \<open>
  C10: in the result of \<open>splitText\<close>, the word spans of the line spans, line after line,
  are the collection \<open>words\<close> in its order; the words are distinct and so are the lines,
  the lines are the children of the target, no line is empty, and every word is a child
  of exactly one line.
\<close>

theorem lines_partition_words:
  "let (r, d) = splitText S L R opts el in
     concat (map (children d) (lines r)) = words r
     \<and> distinct (words r) \<and> distinct (lines r)
     \<and> body d = map SpanNode (lines r)
     \<and> (\<forall>l \<in> set (lines r). children d l \<noteq> [])
     \<and> (\<forall>w \<in> set (words r). \<exists>!l. l \<in> set (lines r) \<and> w \<in> set (children d l))"
proof -
  define b where "b = step2 opts (measureOriginalText R (subtree el))
                (clearElement (setAriaLabel (textContent (subtree el)) (load el)))"
  define d4 where "d4 = step4 L (allWords b) (step3 b)"
  define groups where "groups = detectLines L d4 (allWords b)"
  define ls where "ls = fst (step6 opts (noSpaceBeforeSet b) groups d4)"
  define d where "d = snd (step6 opts (noSpaceBeforeSet b) groups d4)"
  have r: "words (fst (splitText S L R opts el)) = allWords b" "lines (fst (splitText S L R opts el)) = ls"
    by (simp_all add: splitText_fst b_def d4_def groups_def ls_def Let_def)
  have s: "snd (splitText S L R opts el) = d"
    by (simp add: splitText_snd b_def d4_def groups_def d_def Let_def)
  have ls: "ls = [nextRef d4..<nextRef d4 + length groups]"
    and body: "body d = map SpanNode ls"
    and kids: "map (children d) ls = groups"
    using step6_facts [of opts "noSpaceBeforeSet b" groups d4] unfolding ls_def d_def by blast+
  have cat: "concat groups = allWords b"
    by (simp add: groups_def concat_detectLines)
  have dw: "distinct (allWords b)"
    by (simp add: b_def step2_facts distinct_wordRefs)
  have dl: "distinct ls"
    by (simp add: ls)
  have len: "length ls = length groups"
    using kids by (metis length_map)
  have nth: "children d (ls ! j) = groups ! j" if "j < length ls" for j
    using kids that by (metis nth_map)
  have ne: "children d l \<noteq> []" if "l \<in> set ls" for l
  proof -
    from that obtain j where j: "j < length ls" "l = ls ! j"
      by (auto simp: in_set_conv_nth)
    then have "children d l \<in> set groups"
      using nth len by (metis nth_mem)
    then show ?thesis
      using detectLines_nonempty [of L d4 "allWords b"] by (auto simp: groups_def)
  qed
  have ex1: "\<exists>!l. l \<in> set ls \<and> w \<in> set (children d l)" if "w \<in> set (allWords b)" for w
  proof -
    from that cat have "w \<in> set (concat groups)" by simp
    then obtain g where "g \<in> set groups" "w \<in> set g" by auto
    then obtain j where j: "j < length groups" "w \<in> set (groups ! j)"
      by (auto simp: in_set_conv_nth)
    have "ls ! j \<in> set ls \<and> w \<in> set (children d (ls ! j))"
      using j len nth by simp
    moreover have "l = ls ! j" if l: "l \<in> set ls" "w \<in> set (children d l)" for l
    proof -
      from l obtain i where i: "i < length ls" "l = ls ! i"
        by (auto simp: in_set_conv_nth)
      with l nth have "w \<in> set (groups ! i)" by simp
      with j i len dw cat have "i = j"
        using distinct_concat_index [of groups i j w] by simp
      with i show ?thesis by simp
    qed
    ultimately show ?thesis by blast
  qed
  show ?thesis
    using kids cat dw dl body ne ex1 by (simp add: case_prod_beta r s)
qed

text \<open>For the text \<open>a b\<close> with the second word 20 units lower: two words, two lines,
  and the second word in exactly one of them.\<close>

theorem lines_partition_words_witness:
  "let (r, d) = splitText htmlSerialize layout_0_20 mockRange defaultOptions element_a_b_96 in
     words r = [0, 2] \<and> lines r = [4, 5] \<and> children d 4 \<noteq> []
     \<and> (\<exists>!l. l \<in> set (lines r) \<and> 2 \<in> set (children d l))"
proof -
  have "words (fst (splitText htmlSerialize layout_0_20 mockRange defaultOptions element_a_b_96)) = [0, 2]"
    by code_simp
  moreover have "lines (fst (splitText htmlSerialize layout_0_20 mockRange defaultOptions element_a_b_96)) = [4, 5]"
    by code_simp
  ultimately show ?thesis
    using lines_partition_words [of htmlSerialize layout_0_20 mockRange defaultOptions element_a_b_96]
    by (simp add: case_prod_beta)
qed

end
